theory Spec2Isabelle
  imports Complex_Main
begin

section \<open>Warped K-Means (js/wkmb.js): a shallow embedding\<close>

text \<open>
  The clustering object of \<^verbatim>\<open>js/wkmb.js\<close> is a record; every method takes the record and
  returns the updated one. A \<^verbatim>\<open>throw\<close> is a value \<open>Inl e\<close>. Numbers that the source uses as
  counters, sizes and indices are \<open>nat\<close> or \<open>int\<close>; coordinates, energies and the threshold
  are \<open>real\<close>, so the arithmetic is exact where the source computes with doubles.
\<close>

subsection \<open>The math collaborator\<close>

type_synonym sample = "real list"

text \<open>
  Modelled from the spec: \<^verbatim>\<open>mathlib.sqL2\<close> is required by the source and not part of it.
  Squared Euclidean distance between equal-length vectors.
\<close>

definition sqL2 :: "sample \<Rightarrow> sample \<Rightarrow> real" where
  "sqL2 u v = sum_list (map (\<lambda>(a, b). (a - b) * (a - b)) (zip u v))"

text \<open>
  Modelled from the spec: \<^verbatim>\<open>mathlib.clustercenter\<close> is required by the source and not part of
  it. Element-wise mean of a non-empty sequence of equal-length vectors; it fails on the
  empty sequence.
\<close>

definition clustercenter :: "sample list \<Rightarrow> sample option" where
  "clustercenter points =
     (case points of
        [] \<Rightarrow> None
      | p # ps \<Rightarrow>
          Some (map (\<lambda>d. sum_list (map (\<lambda>q. q ! d) points) / real (length points))
                  [0..<length p]))"

text \<open>
  Modelled from the spec: \<^verbatim>\<open>mathlib.cumdist\<close> is required by the source and not part of it.
  Running Euclidean arc length along the ordered sequence: one value per point
  (\<open>cumdist_values\<close>, starting at 0), and the total length (\<open>cumdist_length\<close>); \<open>L2\<close> is
  the Euclidean distance of two points.
\<close>

definition L2 :: "sample \<Rightarrow> sample \<Rightarrow> real" where
  "L2 u v = sqrt (sqL2 u v)"

fun cumdist_from :: "real \<Rightarrow> sample \<Rightarrow> sample list \<Rightarrow> real list" where
  "cumdist_from acc p [] = []"
| "cumdist_from acc p (q # qs) =
     (let a = acc + L2 q p in a # cumdist_from a q qs)"

definition cumdist_values :: "sample list \<Rightarrow> real list" where
  "cumdist_values points =
     (case points of [] \<Rightarrow> [] | p # ps \<Rightarrow> 0 # cumdist_from 0 p ps)"

definition cumdist_length :: "sample list \<Rightarrow> real" where
  "cumdist_length points =
     (case cumdist_values points of [] \<Rightarrow> 0 | v # vs \<Rightarrow> last (v # vs))"

subsection \<open>JavaScript arrays\<close>

text \<open>Reading \<^verbatim>\<open>xs[i]\<close>: \<open>None\<close> is \<^verbatim>\<open>undefined\<close>.\<close>

definition js_get :: "'a list \<Rightarrow> nat \<Rightarrow> 'a option" where
  "js_get xs i = (if i < length xs then Some (xs ! i) else None)"

text \<open>
  Writing \<^verbatim>\<open>xs[i] = v\<close>: in range it replaces, at the end it appends. Beyond the end
  JavaScript leaves holes; the model fills them with \<open>hole\<close>. The loops of the source
  write at indices \<open>0, 1, 2, \<dots>\<close> in turn, so no hole arises there.
\<close>

definition js_set :: "'a \<Rightarrow> 'a list \<Rightarrow> nat \<Rightarrow> 'a \<Rightarrow> 'a list" where
  "js_set hole xs i v =
     (if i < length xs then xs[i := v]
      else xs @ replicate (i - length xs) hole @ [v])"

text \<open>
  \<^verbatim>\<open>xs.slice(start, end)\<close>: an \<^verbatim>\<open>undefined\<close> start is 0, an \<^verbatim>\<open>undefined\<close> end is the
  length; a negative index counts from the end; both are clamped to the array.
\<close>

definition js_slice :: "'a list \<Rightarrow> int option \<Rightarrow> int option \<Rightarrow> 'a list" where
  "js_slice xs start end =
     (let len = int (length xs);
          rs = (case start of None \<Rightarrow> 0 | Some a \<Rightarrow> a);
          k = (if rs < 0 then max (len + rs) 0 else min rs len);
          re = (case end of None \<Rightarrow> len | Some b \<Rightarrow> b);
          fin = (if re < 0 then max (len + re) 0 else min re len)
      in take (nat (fin - k)) (drop (nat k) xs))"

text \<open>\<^verbatim>\<open>toLowerCase\<close> on the ASCII letters, which is all the comparison with "ts" and "eq" sees.\<close>

definition lower_char :: "char \<Rightarrow> char" where
  "lower_char c =
     (let k = of_char c :: nat in if 65 \<le> k \<and> k \<le> 90 then char_of (k + 32) else c)"

definition toLowerCase :: "string \<Rightarrow> string" where
  "toLowerCase = map lower_char"

subsection \<open>The instance\<close>

datatype error = EmptyCluster nat | TypeError

record wkm =
  maxiter :: nat
  samples :: "sample list"
  numclusters :: nat
  threshold :: real
  dimensions :: nat
  initialized :: bool
  boundaries :: "int list"
  clusters :: "sample list list"
  centroids :: "sample list"
  localenergy :: "real list"
  totalenergy :: real
  iterations :: nat
  numtransfers :: nat
  cost :: nat

text \<open>
  \<^verbatim>\<open>WKM.prototype.reset\<close>. The source pushes the number 0 into every slot of
  \<^verbatim>\<open>clusters\<close> and \<^verbatim>\<open>centroids\<close>; the slots are overwritten before they are read, and
  the model holds the empty list there.
\<close>

definition reset :: "wkm \<Rightarrow> wkm" where
  "reset s =
     s\<lparr>initialized := False,
       boundaries := replicate (numclusters s) 0,
       clusters := replicate (numclusters s) [],
       centroids := replicate (numclusters s) [],
       localenergy := replicate (numclusters s) 0,
       totalenergy := 0,
       iterations := 0,
       numtransfers := 0,
       cost := 0\<rparr>"

text \<open>
  The constructor. \<^verbatim>\<open>samples[0].length\<close> raises a TypeError on an empty sample list. The
  segment count is clamped to \<open>[1, N]\<close>, the threshold to \<open>[0, 1]\<close>.
\<close>

definition WKM :: "sample list \<Rightarrow> int \<Rightarrow> real \<Rightarrow> error + wkm" where
  "WKM smpls ncl thr =
     (case smpls of
        [] \<Rightarrow> Inl TypeError
      | p # ps \<Rightarrow>
          Inr (reset
            \<lparr>maxiter = 100,
             samples = smpls,
             numclusters =
               (if ncl < 1 then 1
                else if ncl > int (length smpls) then length smpls else nat ncl),
             threshold = (if thr > 1 then 1 else if thr < 0 then 0 else thr),
             dimensions = length p,
             initialized = False,
             boundaries = [],
             clusters = [],
             centroids = [],
             localenergy = [],
             totalenergy = 0,
             iterations = 0,
             numtransfers = 0,
             cost = 0\<rparr>))"

subsection \<open>Boundary initialisation\<close>

text \<open>\<^verbatim>\<open>WKM.prototype.resample\<close>: the \<^verbatim>\<open>for\<close> loop, with \<open>b\<close> the last recorded quotient.\<close>

function resample_loop :: "nat \<Rightarrow> nat \<Rightarrow> nat \<Rightarrow> int \<Rightarrow> int list \<Rightarrow> int list" where
  "resample_loop N M i b bs =
     (if i < N then
        (let q = int (((i + 1) * M) div (N + 1))
         in if q > b then resample_loop N M (i + 1) q (bs @ [int i])
            else resample_loop N M (i + 1) b bs)
      else bs)"
  by pat_completeness auto
termination
  by (relation "measure (\<lambda>(N, M, i, b, bs). N - i)") auto

declare resample_loop.simps [simp del]

definition resample :: "wkm \<Rightarrow> nat \<Rightarrow> nat \<Rightarrow> wkm" where
  "resample s N M =
     s\<lparr>boundaries := resample_loop N M 0 (- 1) [], initialized := True\<rparr>"

text \<open>
  \<^verbatim>\<open>WKM.prototype.TS\<close>. The inner \<^verbatim>\<open>while\<close> advances \<open>i\<close> while the target exceeds the
  cumulative length at \<open>i\<close> or \<open>i\<close> is a boundary already; \<^verbatim>\<open>fact > undefined\<close> is false.
  The source's \<^verbatim>\<open>fact\<close> is \<open>fct\<close> here.
\<close>

function TS_advance :: "real \<Rightarrow> real list \<Rightarrow> nat list \<Rightarrow> nat \<Rightarrow> nat" where
  "TS_advance fct Lcum bs i =
     (if (case js_get Lcum i of None \<Rightarrow> False | Some v \<Rightarrow> fct > v) \<or> i \<in> set bs
      then TS_advance fct Lcum bs (i + 1)
      else i)"
  by pat_completeness auto
termination
proof (relation "measure (\<lambda>(fct, Lcum, bs, i). length Lcum + sum_list bs + 1 - i)")
  show "wf (measure (\<lambda>(fct, Lcum, bs, i). length Lcum + sum_list bs + 1 - i))"
    by simp
next
  fix fct :: real and Lcum :: "real list" and bs :: "nat list" and i :: nat
  assume c: "(case js_get Lcum i of None \<Rightarrow> False | Some v \<Rightarrow> fct > v) \<or> i \<in> set bs"
  have "i < length Lcum \<or> i \<le> sum_list bs"
  proof (cases "i \<in> set bs")
    case True
    then show ?thesis by (simp add: member_le_sum_list)
  next
    case False
    with c show ?thesis by (auto simp: js_get_def split: if_splits)
  qed
  then show "((fct, Lcum, bs, i + 1), (fct, Lcum, bs, i))
      \<in> measure (\<lambda>(fct, Lcum, bs, i). length Lcum + sum_list bs + 1 - i)"
    by auto
qed

function TS_loop :: "real \<Rightarrow> real list \<Rightarrow> nat \<Rightarrow> nat \<Rightarrow> nat list \<Rightarrow> nat \<Rightarrow> nat list" where
  "TS_loop incr Lcum M j bs i =
     (if j < M + 1 then
        (let fct = (real j - 1) * incr;
             i' = TS_advance fct Lcum bs i
         in TS_loop incr Lcum M (j + 1) (bs @ [i']) i')
      else bs)"
  by pat_completeness auto
termination
  by (relation "measure (\<lambda>(incr, Lcum, M, j, bs, i). M + 1 - j)") auto

declare TS_advance.simps [simp del] TS_loop.simps [simp del]

definition TS :: "wkm \<Rightarrow> nat \<Rightarrow> nat \<Rightarrow> wkm" where
  "TS s N M =
     (let Lcum = cumdist_values (samples s);
          LN = cumdist_length (samples s);
          incr = LN / real M
      in s\<lparr>boundaries := map int (TS_loop incr Lcum M 1 [] 0), initialized := True\<rparr>)"

text \<open>\<^verbatim>\<open>WKM.prototype.initdefault\<close>.\<close>

definition initdefault :: "wkm \<Rightarrow> nat \<Rightarrow> nat \<Rightarrow> wkm" where
  "initdefault s N M =
     (let s1 = s\<lparr>boundaries := []\<rparr>;
          s2 = (if real N / real M < 2 then resample s1 N M else TS s1 N M)
      in resample s2 N M)"

text \<open>\<^verbatim>\<open>WKM.prototype.init\<close>; the method is \<open>None\<close> when the argument is absent.\<close>

definition init :: "wkm \<Rightarrow> string option \<Rightarrow> wkm" where
  "init s0 method =
     (let s = reset s0;
          N = length (samples s);
          M = numclusters s
      in if numclusters s \<le> 1 then s\<lparr>boundaries := [0]\<rparr>
         else if numclusters s \<ge> N then
           s\<lparr>boundaries := fold (\<lambda>i bs. js_set 0 bs i (int i)) [0..<M] (boundaries s)\<rparr>
         else
           (case method of
              None \<Rightarrow> initdefault s N M
            | Some meth \<Rightarrow>
                (let m = toLowerCase meth
                 in if m = ''ts'' then TS s N M
                    else if m = ''eq'' then resample s N M
                    else initdefault s N M)))"

subsection \<open>Partition bookkeeping\<close>

text \<open>\<^verbatim>\<open>WKM.prototype.getClusterSamples\<close>.\<close>

definition getClusterSamples :: "wkm \<Rightarrow> nat \<Rightarrow> sample list" where
  "getClusterSamples s index =
     (let l = (if index + 1 < numclusters s then js_get (boundaries s) (index + 1)
               else Some (int (length (samples s))))
      in js_slice (samples s) (js_get (boundaries s) index) l)"

text \<open>\<^verbatim>\<open>WKM.prototype.getPartition\<close>: the \<^verbatim>\<open>for\<close> loop from segment \<open>j\<close> on.\<close>

function getPartition_loop :: "wkm \<Rightarrow> nat \<Rightarrow> error + wkm" where
  "getPartition_loop s j =
     (if j < numclusters s then
        (let s1 = s\<lparr>clusters := js_set [] (clusters s) j (getClusterSamples s j)\<rparr>
         in if length (clusters s1 ! j) = 0 then Inl (EmptyCluster j)
            else getPartition_loop s1 (j + 1))
      else Inr s)"
  by pat_completeness auto
termination
  by (relation "measure (\<lambda>(s, j). numclusters s - j)") auto

declare getPartition_loop.simps [simp del]

definition getPartition :: "wkm \<Rightarrow> error + wkm" where
  "getPartition s = getPartition_loop s 0"

text \<open>
  \<^verbatim>\<open>WKM.prototype.setPartition\<close>: the \<^verbatim>\<open>for\<close> loop over the supplied segments, \<open>j\<close> the
  index of the next one.
\<close>

fun setPartition_loop :: "wkm \<Rightarrow> nat \<Rightarrow> sample list list \<Rightarrow> error + wkm" where
  "setPartition_loop s j [] = Inr s"
| "setPartition_loop s j (points # rest) =
     (if length points = 0 then Inl (EmptyCluster j)
      else
        (let s1 = s\<lparr>clusters := js_set [] (clusters s) j points\<rparr>;
             s2 = (if j > 0
                   then s1\<lparr>boundaries := boundaries s1 @ [int (length points) - 1]\<rparr>
                   else s1)
         in setPartition_loop s2 (j + 1) rest))"

definition setPartition :: "wkm \<Rightarrow> sample list list \<Rightarrow> error + wkm" where
  "setPartition s part =
     setPartition_loop (s\<lparr>boundaries := [0], clusters := []\<rparr>) 0 part"

subsection \<open>Energies and centroids\<close>

text \<open>
  \<^verbatim>\<open>WKM.prototype.computeEnergies\<close>: the \<^verbatim>\<open>for\<close> loop from segment \<open>j\<close> on. Reading
  \<^verbatim>\<open>points.length\<close> of a missing segment is a TypeError.
\<close>

function computeEnergies_loop :: "wkm \<Rightarrow> nat \<Rightarrow> error + wkm" where
  "computeEnergies_loop s j =
     (if j < numclusters s then
        (case js_get (clusters s) j of
           None \<Rightarrow> Inl TypeError
         | Some points \<Rightarrow>
             (if length points = 0 then Inl (EmptyCluster j)
              else
                (case clustercenter points of
                   None \<Rightarrow> Inl TypeError
                 | Some c \<Rightarrow>
                     (let energy = sum_list (map (\<lambda>p. sqL2 p c) points)
                      in computeEnergies_loop
                           (s\<lparr>centroids := js_set [] (centroids s) j c,
                              localenergy := js_set 0 (localenergy s) j energy,
                              totalenergy := totalenergy s + energy\<rparr>)
                           (j + 1)))))
      else Inr s)"
  by pat_completeness auto
termination
  by (relation "measure (\<lambda>(s, j). numclusters s - j)") auto

declare computeEnergies_loop.simps [simp del]

definition computeEnergies :: "wkm \<Rightarrow> error + wkm" where
  "computeEnergies s = computeEnergies_loop (s\<lparr>totalenergy := 0\<rparr>) 0"

text \<open>\<^verbatim>\<open>WKM.prototype.incrementalMeans\<close>.\<close>

definition incrementalMeans :: "wkm \<Rightarrow> sample \<Rightarrow> nat \<Rightarrow> nat \<Rightarrow> nat \<Rightarrow> nat \<Rightarrow> wkm" where
  "incrementalMeans s sample j bestcluster n m =
     (let newbest = map (\<lambda>d. (centroids s ! bestcluster) ! d
                          + (sample ! d - (centroids s ! bestcluster) ! d) / (real m + 1))
                      [0..<dimensions s];
          newj = map (\<lambda>d. (centroids s ! j) ! d
                          - (sample ! d - (centroids s ! j) ! d) / (real n - 1))
                   [0..<dimensions s]
      in s\<lparr>centroids := (centroids s)[bestcluster := newbest, j := newj]\<rparr>)"

subsection \<open>The optimisation loop\<close>

text \<open>The two costs of the acceptance test, as \<^verbatim>\<open>cluster\<close> computes them.\<close>

definition J1 :: "wkm \<Rightarrow> sample \<Rightarrow> nat \<Rightarrow> nat \<Rightarrow> real" where
  "J1 s sample bestcluster m =
     (real m / (real m + 1)) * sqL2 sample (centroids s ! bestcluster)"

definition J2 :: "wkm \<Rightarrow> sample \<Rightarrow> nat \<Rightarrow> nat \<Rightarrow> real" where
  "J2 s sample j n = (real n / (real n - 1)) * sqL2 sample (centroids s ! j)"

text \<open>
  The body of an accepted move, after the boundary has been shifted: the centroids, the
  two local energies and the total energy are updated, then the segments are derived
  again from the boundaries.
\<close>

definition transfer :: "wkm \<Rightarrow> sample \<Rightarrow> nat \<Rightarrow> nat \<Rightarrow> nat \<Rightarrow> nat \<Rightarrow> error + wkm" where
  "transfer s sample j bestcluster n m =
     (let j1 = J1 s sample bestcluster m;
          j2 = J2 s sample j n;
          delta = j1 - j2;
          s1 = incrementalMeans s sample j bestcluster n m;
          s2 = s1\<lparr>localenergy :=
                    (localenergy s1)[bestcluster := localenergy s1 ! bestcluster + j1]\<rparr>;
          s3 = s2\<lparr>localenergy := (localenergy s2)[j := localenergy s2 ! j - j2]\<rparr>;
          s4 = s3\<lparr>totalenergy := totalenergy s3 + delta\<rparr>
      in getPartition s4)"

lemma getPartition_loop_clusters:
  "getPartition_loop s j = Inr s' \<Longrightarrow> \<exists>cs. s' = s\<lparr>clusters := cs\<rparr>"
proof (induction s j rule: getPartition_loop.induct)
  case (1 s j)
  show ?case
  proof (cases "j < numclusters s")
    case False
    with "1.prems" have "s' = s" by (simp add: getPartition_loop.simps[of s j])
    then have "s' = s\<lparr>clusters := clusters s\<rparr>" by simp
    then show ?thesis by blast
  next
    case True
    define s1 where "s1 = s\<lparr>clusters := js_set [] (clusters s) j (getClusterSamples s j)\<rparr>"
    from True "1.prems" have ne: "length (clusters s1 ! j) \<noteq> 0"
      and rec: "getPartition_loop s1 (j + 1) = Inr s'"
      by (auto simp: getPartition_loop.simps[of s j] s1_def Let_def split: if_splits)
    from "1.IH"[OF True s1_def] ne rec
    obtain cs where "s' = s1\<lparr>clusters := cs\<rparr>" by auto
    then have "s' = s\<lparr>clusters := cs\<rparr>" by (simp add: s1_def)
    then show ?thesis by blast
  qed
qed

lemma transfer_clusters:
  "transfer s sample j b n m = Inr s' \<Longrightarrow>
   threshold s' = threshold s \<and> numclusters s' = numclusters s \<and>
   maxiter s' = maxiter s \<and> iterations s' = iterations s \<and>
   samples s' = samples s \<and> boundaries s' = boundaries s \<and>
   numtransfers s' = numtransfers s \<and> cost s' = cost s \<and>
   initialized s' = initialized s \<and> dimensions s' = dimensions s"
  unfolding transfer_def getPartition_def Let_def
  by (drule getPartition_loop_clusters) (auto simp: incrementalMeans_def Let_def)

text \<open>
  The left scan of segment \<open>j\<close>: the \<^verbatim>\<open>for\<close> loop over \<open>i\<close>. The list \<open>points\<close> and its
  length \<open>n\<close> are the ones read before the loop; the source does not read them again
  inside it. \<^verbatim>\<open>points[i]\<close> beyond the list is \<^verbatim>\<open>undefined\<close>, and computing a distance
  from it is a TypeError. The boundary list has an entry for every segment index once
  \<^verbatim>\<open>init\<close> or \<^verbatim>\<open>setPartition\<close> and \<^verbatim>\<open>computeEnergies\<close> have succeeded, so the write
  \<^verbatim>\<open>boundaries[j]++\<close> is in range.
\<close>

function left_scan ::
  "wkm \<Rightarrow> nat \<Rightarrow> sample list \<Rightarrow> nat \<Rightarrow> nat \<Rightarrow> bool \<Rightarrow> error + wkm \<times> bool" where
  "left_scan s j points n i transfers =
     (if int i \<le> \<lfloor>real n / 2 * (1 - threshold s)\<rfloor> + 1 then
        (case js_get points i of
           None \<Rightarrow> Inl TypeError
         | Some sample \<Rightarrow>
             (let bestcluster = j - 1;
                  m = length (clusters s ! bestcluster);
                  delta = J1 s sample bestcluster m - J2 s sample j n;
                  s1 = s\<lparr>cost := cost s + 1\<rparr>
              in if delta < 0 \<and> length (clusters s1 ! j) > 1 then
                   (case transfer
                           (s1\<lparr>numtransfers := numtransfers s1 + 1,
                               boundaries := (boundaries s1)[j := boundaries s1 ! j + 1]\<rparr>)
                           sample j bestcluster n m of
                      Inl e \<Rightarrow> Inl e
                    | Inr s2 \<Rightarrow> left_scan s2 j points n (i + 1) True)
                 else Inr (s1, transfers)))
      else Inr (s, transfers))"
  by pat_completeness auto
termination
proof (relation "measure (\<lambda>(s, j, points, n, i, transfers).
          nat (\<lfloor>real n / 2 * (1 - threshold s)\<rfloor> + 2 - int i))", goal_cases)
  case 1
  show ?case by simp
next
  case (2 s j points n i transfers sample bestcluster m delta s1 s2)
  from transfer_clusters[OF 2(8)] 2(6) have "threshold s2 = threshold s" by simp
  with 2(1) show ?case by simp
qed

text \<open>The right scan of segment \<open>j\<close>, from the last member downwards.\<close>

function right_scan ::
  "wkm \<Rightarrow> nat \<Rightarrow> sample list \<Rightarrow> nat \<Rightarrow> int \<Rightarrow> bool \<Rightarrow> error + wkm \<times> bool" where
  "right_scan s j points n i transfers =
     (if i \<ge> \<lfloor>real n / 2 * (1 + threshold s)\<rfloor> - 2 then
        (case (if 0 \<le> i then js_get points (nat i) else None) of
           None \<Rightarrow> Inl TypeError
         | Some sample \<Rightarrow>
             (let bestcluster = j + 1;
                  m = length (clusters s ! bestcluster);
                  delta = J1 s sample bestcluster m - J2 s sample j n;
                  s1 = s\<lparr>cost := cost s + 1\<rparr>
              in if delta < 0 \<and> length (clusters s1 ! j) > 1 then
                   (case transfer
                           (s1\<lparr>numtransfers := numtransfers s1 + 1,
                               boundaries := (boundaries s1)
                                 [bestcluster := boundaries s1 ! bestcluster - 1]\<rparr>)
                           sample j bestcluster n m of
                      Inl e \<Rightarrow> Inl e
                    | Inr s2 \<Rightarrow> right_scan s2 j points n (i - 1) True)
                 else Inr (s1, transfers)))
      else Inr (s, transfers))"
  by pat_completeness auto
termination
proof (relation "measure (\<lambda>(s, j, points, n, i, transfers).
          nat (i - \<lfloor>real n / 2 * (1 + threshold s)\<rfloor> + 3))", goal_cases)
  case 1
  show ?case by simp
next
  case (2 s j points n i transfers sample bestcluster m delta s1 s2)
  from transfer_clusters[OF 2(8)] 2(6) have "threshold s2 = threshold s" by simp
  with 2(1) show ?case by simp
qed

declare left_scan.simps [simp del] right_scan.simps [simp del]

lemma left_scan_frame:
  "left_scan s j points n i transfers = Inr (s', t') \<Longrightarrow>
   threshold s' = threshold s \<and> numclusters s' = numclusters s \<and>
   maxiter s' = maxiter s \<and> iterations s' = iterations s \<and>
   samples s' = samples s \<and> initialized s' = initialized s \<and>
   dimensions s' = dimensions s"
proof (induction s j points n i transfers rule: left_scan.induct)
  case (1 s j points n i transfers)
  note unf = left_scan.simps[of s j points n i transfers]
  show ?case
  proof (cases "int i \<le> \<lfloor>real n / 2 * (1 - threshold s)\<rfloor> + 1")
    case False
    with "1.prems" show ?thesis by (simp add: unf)
  next
    case c1: True
    show ?thesis
    proof (cases "js_get points i")
      case None
      with c1 "1.prems" show ?thesis by (simp add: unf)
    next
      case (Some sample)
      let ?m = "length (clusters s ! (j - 1))"
      let ?s1 = "s\<lparr>cost := cost s + 1\<rparr>"
      let ?acc = "J1 s sample (j - 1) ?m - J2 s sample j n < 0 \<and> length (clusters ?s1 ! j) > 1"
      let ?s1' = "?s1\<lparr>numtransfers := numtransfers ?s1 + 1,
                     boundaries := (boundaries ?s1)[j := boundaries ?s1 ! j + 1]\<rparr>"
      show ?thesis
      proof (cases ?acc)
        case False
        with c1 Some "1.prems" have "s' = ?s1"
          by (simp add: unf Let_def split: if_splits)
        then show ?thesis by simp
      next
        case acc: True
        show ?thesis
        proof (cases "transfer ?s1' sample j (j - 1) n ?m")
          case (Inl e)
          with c1 Some acc "1.prems" show ?thesis by (simp add: unf Let_def)
        next
          case (Inr s2)
          with c1 Some acc "1.prems"
          have rec: "left_scan s2 j points n (i + 1) True = Inr (s', t')"
            by (simp add: unf Let_def)
          have "threshold s' = threshold s2 \<and> numclusters s' = numclusters s2 \<and>
                maxiter s' = maxiter s2 \<and> iterations s' = iterations s2 \<and>
                samples s' = samples s2 \<and> initialized s' = initialized s2 \<and>
                dimensions s' = dimensions s2"
            by (rule "1.IH"[OF c1 Some refl refl refl refl acc Inr rec])
          with transfer_clusters[OF Inr] show ?thesis by simp
        qed
      qed
    qed
  qed
qed

lemma right_scan_frame:
  "right_scan s j points n i transfers = Inr (s', t') \<Longrightarrow>
   threshold s' = threshold s \<and> numclusters s' = numclusters s \<and>
   maxiter s' = maxiter s \<and> iterations s' = iterations s \<and>
   samples s' = samples s \<and> initialized s' = initialized s \<and>
   dimensions s' = dimensions s"
proof (induction s j points n i transfers rule: right_scan.induct)
  case (1 s j points n i transfers)
  note unf = right_scan.simps[of s j points n i transfers]
  show ?case
  proof (cases "i \<ge> \<lfloor>real n / 2 * (1 + threshold s)\<rfloor> - 2")
    case False
    with "1.prems" show ?thesis by (simp add: unf)
  next
    case c1: True
    show ?thesis
    proof (cases "if 0 \<le> i then js_get points (nat i) else None")
      case None
      with c1 "1.prems" show ?thesis by (simp add: unf)
    next
      case (Some sample)
      let ?m = "length (clusters s ! (j + 1))"
      let ?s1 = "s\<lparr>cost := cost s + 1\<rparr>"
      let ?acc = "J1 s sample (j + 1) ?m - J2 s sample j n < 0 \<and> length (clusters ?s1 ! j) > 1"
      let ?s1' = "?s1\<lparr>numtransfers := numtransfers ?s1 + 1,
                     boundaries := (boundaries ?s1)[j + 1 := boundaries ?s1 ! (j + 1) - 1]\<rparr>"
      show ?thesis
      proof (cases ?acc)
        case False
        with c1 Some "1.prems" have "s' = ?s1"
          by (simp add: unf Let_def split: if_splits)
        then show ?thesis by simp
      next
        case acc: True
        show ?thesis
        proof (cases "transfer ?s1' sample j (j + 1) n ?m")
          case (Inl e)
          with c1 Some acc "1.prems" show ?thesis by (simp add: unf Let_def)
        next
          case (Inr s2)
          with c1 Some acc "1.prems"
          have rec: "right_scan s2 j points n (i - 1) True = Inr (s', t')"
            by (simp add: unf Let_def)
          have "threshold s' = threshold s2 \<and> numclusters s' = numclusters s2 \<and>
                maxiter s' = maxiter s2 \<and> iterations s' = iterations s2 \<and>
                samples s' = samples s2 \<and> initialized s' = initialized s2 \<and>
                dimensions s' = dimensions s2"
            by (rule "1.IH"[OF c1 Some refl refl refl refl acc Inr rec])
          with transfer_clusters[OF Inr] show ?thesis by simp
        qed
      qed
    qed
  qed
qed

text \<open>
  One sweep: the \<^verbatim>\<open>for\<close> loop over the segments, from segment \<open>j\<close> on. Once
  \<^verbatim>\<open>computeEnergies\<close> has succeeded, \<^verbatim>\<open>clusters\<close> and \<^verbatim>\<open>centroids\<close> hold an entry for
  every segment index below \<^verbatim>\<open>numclusters\<close>, so the reads \<open>clusters s ! j\<close> here and in the
  scans are in range.
\<close>

function sweep_loop :: "wkm \<Rightarrow> nat \<Rightarrow> bool \<Rightarrow> error + wkm \<times> bool" where
  "sweep_loop s j transfers =
     (if j < numclusters s then
        (let points = clusters s ! j;
             n = length points
         in if n < 2 then sweep_loop s (j + 1) transfers
            else
              (case (if j > 0 then left_scan s j points n 0 transfers
                     else Inr (s, transfers)) of
                 Inl e \<Rightarrow> Inl e
               | Inr (s1, t1) \<Rightarrow>
                   (let points = clusters s1 ! j;
                        n = length points
                    in if n < 2 then sweep_loop s1 (j + 1) t1
                       else
                         (case (if j + 1 < numclusters s1
                                then right_scan s1 j points n (int n - 1) t1
                                else Inr (s1, t1)) of
                            Inl e \<Rightarrow> Inl e
                          | Inr (s2, t2) \<Rightarrow> sweep_loop s2 (j + 1) t2))))
      else Inr (s, transfers))"
  by pat_completeness auto
termination
proof (relation "measure (\<lambda>(s, j, transfers). numclusters s - j)", goal_cases)
  case 1
  show ?case by simp
next
  case (2 s j transfers points n)
  then show ?case by simp
next
  case (3 s j transfers points n x s1 t1 points' n')
  then have "numclusters s1 = numclusters s"
    by (auto split: if_splits dest: left_scan_frame)
  with 3 show ?case by simp
next
  case (4 s j transfers points n x s1 t1 points' n' y s2 t2)
  then have "numclusters s1 = numclusters s"
    by (auto split: if_splits dest: left_scan_frame)
  moreover from 4 have "numclusters s2 = numclusters s1"
    by (auto split: if_splits dest: right_scan_frame)
  ultimately show ?case using 4 by simp
qed

declare sweep_loop.simps [simp del]

text \<open>
  The \<^verbatim>\<open>while (true)\<close> loop of \<^verbatim>\<open>cluster\<close>: a sweep, the increment of the sweep counter,
  and the exit test. \<open>None\<close> is a loop that never exits.
\<close>

partial_function (option) cluster_while :: "wkm \<Rightarrow> (error + wkm) option" where
  "cluster_while s =
     (case sweep_loop s 0 False of
        Inl e \<Rightarrow> Some (Inl e)
      | Inr (s1, transfers) \<Rightarrow>
          (let s2 = s1\<lparr>iterations := iterations s1 + 1\<rparr>
           in if \<not> transfers \<or> iterations s2 = maxiter s2 then Some (Inr s2)
              else cluster_while s2))"

text \<open>\<^verbatim>\<open>WKM.prototype.cluster\<close>; the partition is \<open>None\<close> when the argument is absent.\<close>

definition cluster :: "wkm \<Rightarrow> sample list list option \<Rightarrow> (error + wkm) option" where
  "cluster s0 part =
     (let s = (if \<not> initialized s0 then init s0 None else s0)
      in case (case part of Some p \<Rightarrow> setPartition s p | None \<Rightarrow> getPartition s) of
           Inl e \<Rightarrow> Some (Inl e)
         | Inr s1 \<Rightarrow>
             (case computeEnergies s1 of
                Inl e \<Rightarrow> Some (Inl e)
              | Inr s2 \<Rightarrow>
                  if numclusters s2 < 2 then Some (Inr s2)
                  else
                    (case cluster_while s2 of
                       None \<Rightarrow> None
                     | Some (Inl e) \<Rightarrow> Some (Inl e)
                     | Some (Inr s3) \<Rightarrow> Some (computeEnergies s3))))"

section \<open>Evaluation on concrete instances\<close>

lemma replicate_numeral_unfold: "replicate (numeral k) x = x # replicate (pred_numeral k) x"
  by (simp add: numeral_eq_Suc)

lemmas eval_defs = replicate_numeral_unfold
  WKM_def reset_def init_def initdefault_def resample_def TS_def
  resample_loop.simps getPartition_def getPartition_loop.simps getClusterSamples_def
  setPartition_def computeEnergies_def computeEnergies_loop.simps
  Let_def js_get_def js_set_def js_slice_def
  sqL2_def clustercenter_def J1_def J2_def transfer_def incrementalMeans_def
  left_scan.simps right_scan.simps sweep_loop.simps cluster_while.simps cluster_def
  toLowerCase_def lower_char_def

section \<open>Equal-count boundaries\<close>

lemma quot_step_le:
  fixes i M N :: nat
  assumes "M \<le> N"
  shows "((i + 1) * M) div (N + 1) \<le> (i * M) div (N + 1) + 1"
proof -
  have "((i + 1) * M) div (N + 1) \<le> (i * M + (N + 1)) div (N + 1)"
    using assms by (intro div_le_mono) (simp add: algebra_simps)
  also have "\<dots> = (i * M) div (N + 1) + 1"
    using div_add_self2[of "N + 1" "i * M"] by simp
  finally show ?thesis .
qed

lemma quot_step_ge:
  fixes i M N :: nat
  shows "(i * M) div (N + 1) \<le> ((i + 1) * M) div (N + 1)"
  by (intro div_le_mono) simp

lemma quot_last:
  fixes M N :: nat
  assumes "1 \<le> M" "M \<le> N"
  shows "(N * M) div (N + 1) = M - 1"
proof -
  from assms obtain k where k: "M = Suc k" by (cases M) auto
  with assms have kN: "k < N" by simp
  then have e: "N * Suc k = (N - k) + k * (N + 1)" by (simp add: algebra_simps)
  have "(N * Suc k) div (N + 1) = k + (N - k) div (N + 1)"
    unfolding e by (rule div_mult_self1) simp
  also have "(N - k) div (N + 1) = 0" by simp
  finally show ?thesis using k by simp
qed

lemma resample_loop_inv:
  shows "1 \<le> M \<Longrightarrow> M \<le> N \<Longrightarrow> 1 \<le> i \<Longrightarrow> i \<le> N \<Longrightarrow> b = int ((i * M) div (N + 1)) \<Longrightarrow>
         int (length bs) = b + 1 \<Longrightarrow> sorted_wrt (<) bs \<Longrightarrow>
         (\<forall>x\<in>set bs. 0 \<le> x \<and> x < int i) \<Longrightarrow> hd bs = 0 \<Longrightarrow>
         length (resample_loop N M i b bs) = M \<and>
         sorted_wrt (<) (resample_loop N M i b bs) \<and>
         hd (resample_loop N M i b bs) = 0 \<and>
         (\<forall>x\<in>set (resample_loop N M i b bs). 0 \<le> x \<and> x < int N)"
proof (induction N M i b bs rule: resample_loop.induct)
  case (1 N M i b bs)
  note unf = resample_loop.simps[of N M i b bs]
  have ne: "bs \<noteq> []" using "1.prems"(5,6) by (cases bs) auto
  show ?case
  proof (cases "i < N")
    case False
    have res: "resample_loop N M i b bs = bs" using False by (simp add: unf)
    from False "1.prems" have "i = N" by simp
    with "1.prems"(1,5,6) quot_last[OF "1.prems"(1,2)] have "length bs = M"
      by simp
    with \<open>i = N\<close> "1.prems"(7,8,9) show ?thesis unfolding res by simp
  next
    case True
    define q where "q = int (((i + 1) * M) div (N + 1))"
    have qb: "b \<le> q" "q \<le> b + 1"
      using quot_step_ge[of i M N] quot_step_le[OF "1.prems"(2), of i] "1.prems"(5)
      by (simp_all add: q_def)
    show ?thesis
    proof (cases "q > b")
      case gt: True
      then have qeq: "q = b + 1" using qb by simp
      have rec: "resample_loop N M i b bs = resample_loop N M (i + 1) q (bs @ [int i])"
        using True gt by (simp add: unf q_def Let_def)
      have "length (resample_loop N M (i + 1) q (bs @ [int i])) = M \<and>
         sorted_wrt (<) (resample_loop N M (i + 1) q (bs @ [int i])) \<and>
         hd (resample_loop N M (i + 1) q (bs @ [int i])) = 0 \<and>
         (\<forall>x\<in>set (resample_loop N M (i + 1) q (bs @ [int i])). 0 \<le> x \<and> x < int N)"
      proof (rule "1.IH"(1)[OF True q_def gt "1.prems"(1,2)])
        show "1 \<le> i + 1" by simp
        show "i + 1 \<le> N" using True by simp
        show "q = int ((i + 1) * M div (N + 1))" by (simp add: q_def)
        show "int (length (bs @ [int i])) = q + 1" using "1.prems"(6) qeq by simp
        show "sorted_wrt (<) (bs @ [int i])"
          using "1.prems"(7,8) by (auto simp: sorted_wrt_append)
        show "\<forall>x\<in>set (bs @ [int i]). 0 \<le> x \<and> x < int (i + 1)"
          using "1.prems"(8) by auto
        show "hd (bs @ [int i]) = 0" using ne "1.prems"(9) by simp
      qed
      with rec show ?thesis by simp
    next
      case ngt: False
      then have qeq: "q = b" using qb by simp
      have rec: "resample_loop N M i b bs = resample_loop N M (i + 1) b bs"
        using True ngt by (simp add: unf q_def Let_def)
      have "length (resample_loop N M (i + 1) b bs) = M \<and>
         sorted_wrt (<) (resample_loop N M (i + 1) b bs) \<and>
         hd (resample_loop N M (i + 1) b bs) = 0 \<and>
         (\<forall>x\<in>set (resample_loop N M (i + 1) b bs). 0 \<le> x \<and> x < int N)"
      proof (rule "1.IH"(2)[OF True q_def ngt "1.prems"(1,2)])
        show "1 \<le> i + 1" by simp
        show "i + 1 \<le> N" using True by simp
        show "b = int ((i + 1) * M div (N + 1))" using qeq by (simp add: q_def)
        show "int (length bs) = b + 1" by (rule "1.prems"(6))
        show "sorted_wrt (<) bs" by (rule "1.prems"(7))
        show "\<forall>x\<in>set bs. 0 \<le> x \<and> x < int (i + 1)" using "1.prems"(8) by auto
        show "hd bs = 0" by (rule "1.prems"(9))
      qed
      with rec show ?thesis by simp
    qed
  qed
qed

lemma resample_loop_first:
  assumes "1 \<le> M" "M \<le> N"
  shows "resample_loop N M 0 (- 1) [] = resample_loop N M 1 0 [0]"
proof -
  have "M div (N + 1) = 0" using assms by simp
  then show ?thesis using assms by (simp add: resample_loop.simps[of N M 0] Let_def)
qed

lemma resample_loop_ok:
  assumes "1 \<le> M" "M \<le> N"
  shows "length (resample_loop N M 0 (- 1) []) = M \<and>
         sorted_wrt (<) (resample_loop N M 0 (- 1) []) \<and>
         hd (resample_loop N M 0 (- 1) []) = 0 \<and>
         (\<forall>x\<in>set (resample_loop N M 0 (- 1) []). 0 \<le> x \<and> x < int N)"
proof -
  have "M div (N + 1) = 0" using assms by simp
  then show ?thesis
    unfolding resample_loop_first[OF assms]
    using assms by (intro resample_loop_inv) simp_all
qed





section \<open>The default initialisation\<close>

lemma toLowerCase_eq: "toLowerCase ''eq'' = ''eq''"
  by (simp add: toLowerCase_def lower_char_def)

text \<open>
  Claim C7. Initialising with no method gives the same boundaries (indeed the same
  instance) as initialising with the method "eq": whatever \<^verbatim>\<open>initdefault\<close> computes
  first, trace segmentation included, is overwritten by the equal-count resampling that
  ends it. This holds for every instance, in particular for \<open>1 < M < N\<close>.
\<close>

theorem init_default_is_resample:
  "init s None = init s (Some ''eq'') \<and>
   boundaries (init s None) = boundaries (init s (Some ''eq''))"
  by (simp add: init_def initdefault_def resample_def TS_def Let_def toLowerCase_eq)

theorem init_default_is_resample_witness:
  "boundaries (init (projr (WKM [[0], [0], [0], [3], [7]] 2 0)) None) = [0, 2] \<and>
   boundaries (init (projr (WKM [[0], [0], [0], [3], [7]] 2 0)) (Some ''eq'')) = [0, 2]"
  using init_default_is_resample[of "projr (WKM [[0], [0], [0], [3], [7]] 2 0)"]
  by (simp add: eval_defs)

section \<open>Empty segments\<close>

text \<open>
  The segment of the data model, in the spec's words: segment \<open>j\<close> spans
  \<open>[boundary[j], boundary[j+1])\<close> for \<open>j < M - 1\<close> and \<open>[boundary[M-1], N)\<close> for the last.
  \<open>spec_segment\<close> lists the indices of the sequence that lie in it; it is compared below
  with what \<^verbatim>\<open>getClusterSamples\<close> slices out.
\<close>

definition spec_segment :: "wkm \<Rightarrow> nat \<Rightarrow> nat list" where
  "spec_segment s j =
     (let lo = boundaries s ! j;
          hi = (if j + 1 < numclusters s then boundaries s ! (j + 1)
                else int (length (samples s)))
      in filter (\<lambda>i. lo \<le> int i \<and> int i < hi) [0..<length (samples s)])"

lemma js_set_nth: "js_set hole xs j v ! j = v"
  by (simp add: js_set_def nth_append)

lemma getClusterSamples_clusters [simp]:
  "getClusterSamples (s\<lparr>clusters := cs\<rparr>) j = getClusterSamples s j"
  by (simp add: getClusterSamples_def)

lemma getPartition_loop_Inl:
  "getPartition_loop s j = Inl e \<Longrightarrow>
   \<exists>k. j \<le> k \<and> k < numclusters s \<and> e = EmptyCluster k \<and> getClusterSamples s k = []"
proof (induction s j rule: getPartition_loop.induct)
  case (1 s j)
  note unf = getPartition_loop.simps[of s j]
  show ?case
  proof (cases "j < numclusters s")
    case False
    with "1.prems" show ?thesis by (simp add: unf)
  next
    case True
    define s1 where "s1 = s\<lparr>clusters := js_set [] (clusters s) j (getClusterSamples s j)\<rparr>"
    show ?thesis
    proof (cases "getClusterSamples s j = []")
      case e: True
      with True "1.prems" have "e = EmptyCluster j"
        by (simp add: unf Let_def js_set_nth)
      with True e show ?thesis by blast
    next
      case ne: False
      then have ne': "length (clusters s1 ! j) \<noteq> 0" by (simp add: s1_def js_set_nth)
      with True "1.prems" have rec: "getPartition_loop s1 (j + 1) = Inl e"
        by (simp add: unf Let_def s1_def js_set_nth)
      from "1.IH"[OF True s1_def ne' rec]
      obtain k where "j + 1 \<le> k" "k < numclusters s1" "e = EmptyCluster k"
        "getClusterSamples s1 k = []" by blast
      then show ?thesis by (auto simp: s1_def intro!: exI[of _ k])
    qed
  qed
qed

lemma getPartition_loop_Inr:
  "getPartition_loop s j = Inr s' \<Longrightarrow>
   \<forall>k. j \<le> k \<and> k < numclusters s \<longrightarrow> getClusterSamples s k \<noteq> []"
proof (induction s j rule: getPartition_loop.induct)
  case (1 s j)
  note unf = getPartition_loop.simps[of s j]
  show ?case
  proof (cases "j < numclusters s")
    case False
    then show ?thesis by auto
  next
    case True
    define s1 where "s1 = s\<lparr>clusters := js_set [] (clusters s) j (getClusterSamples s j)\<rparr>"
    from True "1.prems" have ne: "getClusterSamples s j \<noteq> []"
      by (auto simp: unf Let_def js_set_nth split: if_splits)
    then have ne': "length (clusters s1 ! j) \<noteq> 0" by (simp add: s1_def js_set_nth)
    with True "1.prems" have rec: "getPartition_loop s1 (j + 1) = Inr s'"
      by (simp add: unf Let_def s1_def js_set_nth)
    from "1.IH"[OF True s1_def ne' rec]
    have "\<forall>k. j + 1 \<le> k \<and> k < numclusters s \<longrightarrow> getClusterSamples s k \<noteq> []"
      by (simp add: s1_def)
    with ne show ?thesis
      by (metis Suc_eq_plus1 Suc_leI le_neq_implies_less)
  qed
qed

lemma setPartition_loop_Inl:
  "setPartition_loop s j p = Inl e \<Longrightarrow>
   \<exists>k<length p. e = EmptyCluster (j + k) \<and> p ! k = []"
proof (induction p arbitrary: s j)
  case Nil
  then show ?case by simp
next
  case (Cons points rest)
  show ?case
  proof (cases "points = []")
    case True
    with Cons.prems have "e = EmptyCluster j" by simp
    with True show ?thesis by (intro exI[of _ 0]) simp
  next
    case False
    with Cons.prems obtain s2 where "setPartition_loop s2 (j + 1) rest = Inl e"
      by (simp add: Let_def)
    from Cons.IH[OF this] obtain k where "k < length rest" "e = EmptyCluster (j + 1 + k)"
      "rest ! k = []" by blast
    then show ?thesis by (intro exI[of _ "Suc k"]) simp
  qed
qed

lemma setPartition_loop_Inr:
  "setPartition_loop s j p = Inr s' \<Longrightarrow> \<forall>k<length p. p ! k \<noteq> []"
proof (induction p arbitrary: s j)
  case Nil
  then show ?case by simp
next
  case (Cons points rest)
  from Cons.prems have ne: "points \<noteq> []" by (auto split: if_splits)
  with Cons.prems obtain s2 where "setPartition_loop s2 (j + 1) rest = Inr s'"
    by (simp add: Let_def)
  from Cons.IH[OF this] ne show ?case by (auto simp: nth_Cons split: nat.splits)
qed

lemma js_slice_empty_iff:
  assumes "0 \<le> a" "0 \<le> b"
  shows "js_slice xs (Some a) (Some b) = [] \<longleftrightarrow> b \<le> a \<or> int (length xs) \<le> a"
  using assms by (auto simp: js_slice_def Let_def min_def)

lemma spec_segment_empty_iff:
  "spec_segment s j = [] \<longleftrightarrow>
     (let lo = boundaries s ! j;
          hi = (if j + 1 < numclusters s then boundaries s ! (j + 1)
                else int (length (samples s)))
      in \<not> (\<exists>i<length (samples s). lo \<le> int i \<and> int i < hi))"
  by (auto simp: spec_segment_def Let_def filter_empty_conv)

lemma getClusterSamples_empty_iff:
  assumes "j < numclusters s" "numclusters s \<le> length (boundaries s)"
    and "\<forall>k<numclusters s. 0 \<le> boundaries s ! k"
  shows "getClusterSamples s j = [] \<longleftrightarrow> spec_segment s j = []"
proof -
  let ?lo = "boundaries s ! j"
  let ?hi = "if j + 1 < numclusters s then boundaries s ! (j + 1) else int (length (samples s))"
  let ?N = "length (samples s)"
  have lo: "0 \<le> ?lo" and hi: "0 \<le> ?hi" using assms by auto
  have g: "getClusterSamples s j = js_slice (samples s) (Some ?lo) (Some ?hi)"
    using assms by (auto simp: getClusterSamples_def js_get_def Let_def)
  have "(\<exists>i<?N. ?lo \<le> int i \<and> int i < ?hi) \<longleftrightarrow> ?lo < ?hi \<and> ?lo < int ?N"
  proof
    assume "\<exists>i<?N. ?lo \<le> int i \<and> int i < ?hi"
    then show "?lo < ?hi \<and> ?lo < int ?N" by auto
  next
    assume h: "?lo < ?hi \<and> ?lo < int ?N"
    with lo have "nat ?lo < ?N \<and> ?lo \<le> int (nat ?lo) \<and> int (nat ?lo) < ?hi" by auto
    then show "\<exists>i<?N. ?lo \<le> int i \<and> int i < ?hi" by blast
  qed
  then show ?thesis
    unfolding g js_slice_empty_iff[OF lo hi] spec_segment_empty_iff Let_def by auto
qed

text \<open>
  Claim C6. \<^verbatim>\<open>getPartition\<close> raises exactly when some segment that it derives is empty,
  and the error it raises is EmptyCluster with the index of such a segment; for
  boundaries that are indices (not negative, one per segment) the derived segment is
  empty exactly when the interval of the data model holds no index of the sequence.
  \<^verbatim>\<open>setPartition\<close> raises exactly when some supplied segment is empty, again with
  EmptyCluster and the index of such a segment. Neither raises anything else.
\<close>

theorem empty_cluster_iff:
  "(isl (getPartition s) \<longleftrightarrow> (\<exists>j<numclusters s. getClusterSamples s j = [])) \<and>
   (\<forall>e. getPartition s = Inl e \<longrightarrow>
        (\<exists>j<numclusters s. e = EmptyCluster j \<and> getClusterSamples s j = [])) \<and>
   (numclusters s \<le> length (boundaries s) \<and> (\<forall>k<numclusters s. 0 \<le> boundaries s ! k) \<longrightarrow>
        (isl (getPartition s) \<longleftrightarrow> (\<exists>j<numclusters s. spec_segment s j = []))) \<and>
   (isl (setPartition s p) \<longleftrightarrow> (\<exists>j<length p. p ! j = [])) \<and>
   (\<forall>e. setPartition s p = Inl e \<longrightarrow> (\<exists>j<length p. e = EmptyCluster j \<and> p ! j = []))"
proof -
  have g1: "\<forall>e. getPartition s = Inl e \<longrightarrow>
        (\<exists>j<numclusters s. e = EmptyCluster j \<and> getClusterSamples s j = [])"
    unfolding getPartition_def by (blast dest: getPartition_loop_Inl)
  have g2: "isl (getPartition s) \<longleftrightarrow> (\<exists>j<numclusters s. getClusterSamples s j = [])"
  proof (cases "getPartition s")
    case (Inl e)
    with g1 show ?thesis by auto
  next
    case (Inr s')
    then have "\<forall>k. 0 \<le> k \<and> k < numclusters s \<longrightarrow> getClusterSamples s k \<noteq> []"
      unfolding getPartition_def by (rule getPartition_loop_Inr)
    with Inr show ?thesis by auto
  qed
  have g3: "numclusters s \<le> length (boundaries s) \<and> (\<forall>k<numclusters s. 0 \<le> boundaries s ! k) \<longrightarrow>
        (isl (getPartition s) \<longleftrightarrow> (\<exists>j<numclusters s. spec_segment s j = []))"
    unfolding g2 using getClusterSamples_empty_iff[of _ s] by blast
  have p1: "\<forall>e. setPartition s p = Inl e \<longrightarrow> (\<exists>j<length p. e = EmptyCluster j \<and> p ! j = [])"
    unfolding setPartition_def by (auto dest: setPartition_loop_Inl)
  have p2: "isl (setPartition s p) \<longleftrightarrow> (\<exists>j<length p. p ! j = [])"
  proof (cases "setPartition s p")
    case (Inl e)
    with p1 show ?thesis by auto
  next
    case (Inr s')
    then have "\<forall>k<length p. p ! k \<noteq> []"
      unfolding setPartition_def by (rule setPartition_loop_Inr)
    with Inr show ?thesis by auto
  qed
  from g1 g2 g3 p1 p2 show ?thesis by blast
qed


theorem empty_cluster_iff_witness:
  "getPartition ((init (projr (WKM [[0], [0], [0], [3], [7]] 2 0)) None)\<lparr>boundaries := [0, 5]\<rparr>)
     = Inl (EmptyCluster 1) \<and>
   (\<exists>j. j < 2 \<and> spec_segment
       ((init (projr (WKM [[0], [0], [0], [3], [7]] 2 0)) None)\<lparr>boundaries := [0, 5]\<rparr>) j = []) \<and>
   setPartition (init (projr (WKM [[0], [0], [0], [3], [7]] 2 0)) None) [[[0]], []]
     = Inl (EmptyCluster 1) \<and>
   isl (setPartition (init (projr (WKM [[0], [0], [0], [3], [7]] 2 0)) None) [[[0]], []]) \<and>
   \<not> isl (getPartition (init (projr (WKM [[0], [0], [0], [3], [7]] 2 0)) None)) \<and>
   getClusterSamples (init (projr (WKM [[0], [0], [0], [3], [7]] 2 0)) None) 0 \<noteq> [] \<and>
   getClusterSamples (init (projr (WKM [[0], [0], [0], [3], [7]] 2 0)) None) 1 \<noteq> []"
proof -
  let ?s = "init (projr (WKM [[0], [0], [0], [3], [7]] 2 0)) None"
  let ?t = "?s\<lparr>boundaries := [0, 5]\<rparr>"
  have a: "getPartition ?t = Inl (EmptyCluster 1)" by (simp add: eval_defs)
  have b: "setPartition ?s [[[0]], []] = Inl (EmptyCluster 1)" by (simp add: eval_defs)
  have c: "\<exists>s'. getPartition ?s = Inr s'" by (simp add: eval_defs)
  have n: "numclusters ?t = 2" "numclusters ?s = 2" by (simp_all add: eval_defs)
  have h: "numclusters ?t \<le> length (boundaries ?t) \<and> (\<forall>k<numclusters ?t. 0 \<le> boundaries ?t ! k)"
    by (simp add: eval_defs less_Suc_eq numeral_2_eq_2)
  from empty_cluster_iff[of ?t "[[[0]], []]"] a h n
  have 1: "\<exists>j. j < 2 \<and> spec_segment ?t j = []" by auto
  from empty_cluster_iff[of ?s "[[[0]], []]"] c n
  have "\<forall>j<2. getClusterSamples ?s j \<noteq> []" by auto
  then have 2: "getClusterSamples ?s 0 \<noteq> [] \<and> getClusterSamples ?s 1 \<noteq> []" by simp
  from a b c 1 2 show ?thesis by auto
qed

section \<open>Boundaries of the initialisation and of an explicit partition\<close>

text \<open>
  Every path of \<^verbatim>\<open>init\<close> (single segment, singleton segments, equal count, trace
  segmentation, default) leaves one boundary per segment, strictly increasing, the first
  one 0.
\<close>

lemma TS_advance_props:
  "i \<le> TS_advance fct Lcum bs i \<and> TS_advance fct Lcum bs i \<notin> set bs"
proof (induction fct Lcum bs i rule: TS_advance.induct)
  case (1 fct Lcum bs i)
  note unf = TS_advance.simps[of fct Lcum bs i]
  show ?case
  proof (cases "(case js_get Lcum i of None \<Rightarrow> False | Some v \<Rightarrow> fct > v) \<or> i \<in> set bs")
    case True
    with "1.IH" have "i + 1 \<le> TS_advance fct Lcum bs (i + 1) \<and>
        TS_advance fct Lcum bs (i + 1) \<notin> set bs" by simp
    moreover from True have "TS_advance fct Lcum bs i = TS_advance fct Lcum bs (i + 1)"
      by (subst unf) simp
    ultimately show ?thesis by simp
  next
    case False
    then have "TS_advance fct Lcum bs i = i" by (subst unf) simp
    with False show ?thesis by simp
  qed
qed

lemma TS_loop_increasing:
  "sorted_wrt (<) bs \<Longrightarrow> (\<forall>x\<in>set bs. x \<le> i) \<Longrightarrow> j \<le> M + 1 \<Longrightarrow>
   sorted_wrt (<) (TS_loop incr Lcum M j bs i) \<and>
   length (TS_loop incr Lcum M j bs i) = length bs + (M + 1 - j) \<and>
   (bs \<noteq> [] \<longrightarrow> hd (TS_loop incr Lcum M j bs i) = hd bs)"
proof (induction incr Lcum M j bs i rule: TS_loop.induct)
  case (1 incr Lcum M j bs i)
  note unf = TS_loop.simps[of incr Lcum M j bs i]
  show ?case
  proof (cases "j < M + 1")
    case False
    then have "TS_loop incr Lcum M j bs i = bs" by (subst unf) simp
    with False "1.prems" show ?thesis by simp
  next
    case True
    define fct where "fct = (real j - 1) * incr"
    define i' where "i' = TS_advance fct Lcum bs i"
    from TS_advance_props[of i fct Lcum bs] have i': "i \<le> i'" "i' \<notin> set bs"
      by (simp_all add: i'_def)
    have lt: "\<forall>x\<in>set bs. x < i'"
    proof
      fix x assume x: "x \<in> set bs"
      with "1.prems"(2) i'(1) have "x \<le> i'" by fastforce
      moreover from x i'(2) have "x \<noteq> i'" by auto
      ultimately show "x < i'" by simp
    qed
    have s: "sorted_wrt (<) (bs @ [i'])" using "1.prems"(1) lt by (simp add: sorted_wrt_append)
    have le: "\<forall>x\<in>set (bs @ [i']). x \<le> i'" using lt by auto
    have rec: "TS_loop incr Lcum M j bs i = TS_loop incr Lcum M (j + 1) (bs @ [i']) i'"
      using True by (subst unf) (simp add: Let_def fct_def i'_def)
    from "1.IH"[OF True fct_def i'_def s le] True
    have "sorted_wrt (<) (TS_loop incr Lcum M (j + 1) (bs @ [i']) i') \<and>
          length (TS_loop incr Lcum M (j + 1) (bs @ [i']) i') = length (bs @ [i']) + (M + 1 - (j + 1)) \<and>
          hd (TS_loop incr Lcum M (j + 1) (bs @ [i']) i') = hd (bs @ [i'])"
      by simp
    with rec True show ?thesis by auto
  qed
qed

lemma TS_loop_first:
  assumes "1 \<le> M" and "Lcum = [] \<or> 0 \<le> Lcum ! 0"
  shows "hd (TS_loop incr Lcum M 1 [] 0) = 0"
proof -
  have adv: "TS_advance ((real 1 - 1) * incr) Lcum [] 0 = 0"
    using assms(2) by (subst TS_advance.simps) (auto simp: js_get_def)
  have "TS_loop incr Lcum M 1 [] 0 = TS_loop incr Lcum M 2 [0] 0"
    using assms(1) adv by (subst TS_loop.simps) (simp add: Let_def numeral_2_eq_2)
  moreover from TS_loop_increasing[of "[0]" 0 2 M incr Lcum] assms(1)
  have "hd (TS_loop incr Lcum M 2 [0] 0) = 0" by simp
  ultimately show ?thesis by simp
qed

lemma cumdist_values_first: "cumdist_values ps = [] \<or> 0 \<le> cumdist_values ps ! 0"
  by (cases ps) (simp_all add: cumdist_values_def)

lemma TS_boundaries_increasing:
  assumes "1 \<le> M"
  shows "length (boundaries (TS s N M)) = M \<and> sorted_wrt (<) (boundaries (TS s N M)) \<and>
         boundaries (TS s N M) ! 0 = 0"
proof -
  let ?bs = "TS_loop (cumdist_length (samples s) / real M) (cumdist_values (samples s)) M 1 [] 0"
  from TS_loop_increasing[of "[]" 0 1 M] have 1: "sorted_wrt (<) ?bs" "length ?bs = M"
    by simp_all
  from TS_loop_first[OF assms cumdist_values_first] have 2: "hd ?bs = 0" .
  from 1(2) assms have ne: "?bs \<noteq> []" by auto
  have inj: "sorted_wrt (<) (map int ?bs)"
    using 1(1) by (simp add: sorted_wrt_map)
  from ne 2 have "map int ?bs ! 0 = 0" by (simp add: hd_conv_nth)
  with 1 inj show ?thesis by (simp add: TS_def Let_def)
qed

lemma fold_js_set_upt:
  "length bs = M \<Longrightarrow> k \<le> M \<Longrightarrow>
   fold (\<lambda>i bs. js_set 0 bs i (int i)) [0..<k] bs = map int [0..<k] @ drop k bs"
proof (induction k)
  case 0
  then show ?case by simp
next
  case (Suc k)
  then have k: "k < length bs" by simp
  have "fold (\<lambda>i bs. js_set 0 bs i (int i)) [0..<Suc k] bs =
        js_set 0 (map int [0..<k] @ drop k bs) k (int k)"
    using Suc by simp
  also have "\<dots> = (map int [0..<k] @ drop k bs)[k := int k]" using k by (simp add: js_set_def)
  also have "\<dots> = map int [0..<k] @ (drop k bs)[0 := int k]" by (simp add: list_update_append)
  also have "(drop k bs)[0 := int k] = int k # drop (Suc k) bs"
    using k by (simp add: Cons_nth_drop_Suc[symmetric])
  finally show ?case by simp
qed

lemma init_boundaries_increasing:
  assumes "1 \<le> numclusters s" and "numclusters s \<le> length (samples s)"
  shows "length (boundaries (init s method)) = numclusters s \<and>
         sorted_wrt (<) (boundaries (init s method)) \<and>
         boundaries (init s method) ! 0 = 0"
proof -
  let ?M = "numclusters s" and ?N = "length (samples s)"
  let ?r = "reset s"
  have r: "numclusters ?r = ?M" "samples ?r = samples s" "boundaries ?r = replicate ?M 0"
    by (simp_all add: reset_def)
  show ?thesis
  proof (cases "?M \<le> 1")
    case True
    with assms have "?M = 1" by simp
    with True show ?thesis by (simp add: init_def Let_def r)
  next
    case False
    show ?thesis
    proof (cases "?M \<ge> ?N")
      case True
      have "fold (\<lambda>i bs. js_set 0 bs i (int i)) [0..<?M] (replicate ?M 0) = map int [0..<?M]"
        using fold_js_set_upt[of "replicate ?M 0" ?M ?M] by simp
      moreover have "sorted_wrt (<) (map int [0..<?M])"
        by (simp add: sorted_wrt_map sorted_wrt_upt)
      moreover have "map int [0..<?M] ! 0 = 0" using assms(1) by (simp add: nth_map_upt)
      ultimately show ?thesis using False True by (simp add: init_def Let_def r)
    next
      case lt: False
      have M1: "1 \<le> ?M" "?M \<le> ?N" "1 \<le> ?N" using assms by simp_all
      have rs: "\<And>t. length (boundaries (resample t ?N ?M)) = ?M \<and>
                    sorted_wrt (<) (boundaries (resample t ?N ?M)) \<and>
                    boundaries (resample t ?N ?M) ! 0 = 0"
      proof -
        fix t
        let ?l = "resample_loop ?N ?M 0 (- 1) []"
        note ok = resample_loop_ok[OF M1(1,2)]
        from ok M1(1) have "?l \<noteq> []" by auto
        then have "?l ! 0 = hd ?l" by (simp add: hd_conv_nth)
        with ok show "length (boundaries (resample t ?N ?M)) = ?M \<and>
                    sorted_wrt (<) (boundaries (resample t ?N ?M)) \<and>
                    boundaries (resample t ?N ?M) ! 0 = 0"
          by (simp add: resample_def)
      qed
      have df: "\<And>t. initdefault t ?N ?M = resample (if real ?N / real ?M < 2
                 then resample (t\<lparr>boundaries := []\<rparr>) ?N ?M else TS (t\<lparr>boundaries := []\<rparr>) ?N ?M) ?N ?M"
        by (simp add: initdefault_def Let_def)
      show ?thesis
      proof (cases "method")
        case None
        with False lt show ?thesis by (simp add: init_def Let_def r df rs)
      next
        case (Some meth)
        show ?thesis
        proof (cases "toLowerCase meth = ''ts''")
          case True
          with Some False lt TS_boundaries_increasing[OF M1(1), of ?r ?N]
          show ?thesis by (simp add: init_def Let_def r)
        next
          case nts: False
          with Some False lt show ?thesis by (simp add: init_def Let_def r df rs)
        qed
      qed
    qed
  qed
qed

text \<open>
  Claim C4. The boundary list is meant to be strictly increasing from 0 on every path.
  \<^verbatim>\<open>setPartition\<close> pushes \<^verbatim>\<open>points.length - 1\<close> for every segment after the first, not
  the start index of the segment: three segments of two samples each give the boundaries
  \<open>[0, 1, 1]\<close>, which are not strictly increasing (the start indices are \<open>[0, 2, 4]\<close>).
\<close>

theorem setPartition_boundaries_not_increasing:
  "\<exists>s'. setPartition (projr (WKM [[0], [1], [2], [3], [4], [5]] 3 0))
       [[[0], [1]], [[2], [3]], [[4], [5]]] = Inr s' \<and>
   boundaries s' = [0, 1, 1] \<and> \<not> sorted_wrt (<) (boundaries s') \<and>
   clusters s' = [[[0], [1]], [[2], [3]], [[4], [5]]]"
  by (simp add: eval_defs)

section \<open>The sweep counter and the exit of the loop\<close>

text \<open>
  \<open>sweeps k s\<close> is the outcome of \<open>k\<close> sweeps from \<open>s\<close>, each followed by the increment of
  the sweep counter, with no exit test; \<open>accepted r\<close> says that the sweep that starts in
  the outcome \<open>r\<close> completes and accepts at least one move. \<open>cluster_entry\<close> is the part of
  \<^verbatim>\<open>cluster\<close> before the loop.
\<close>

fun sweeps :: "nat \<Rightarrow> wkm \<Rightarrow> error + wkm" where
  "sweeps 0 s = Inr s"
| "sweeps (Suc k) s =
     (case sweep_loop s 0 False of
        Inl e \<Rightarrow> Inl e
      | Inr (s1, transfers) \<Rightarrow> sweeps k (s1\<lparr>iterations := iterations s1 + 1\<rparr>))"

definition accepted :: "error + wkm \<Rightarrow> bool" where
  "accepted r =
     (case r of
        Inl e \<Rightarrow> False
      | Inr t \<Rightarrow> (case sweep_loop t 0 False of Inl e \<Rightarrow> False | Inr (t', transfers) \<Rightarrow> transfers))"

definition cluster_entry :: "wkm \<Rightarrow> sample list list option \<Rightarrow> error + wkm" where
  "cluster_entry s0 part =
     (let s = (if \<not> initialized s0 then init s0 None else s0)
      in case (case part of Some p \<Rightarrow> setPartition s p | None \<Rightarrow> getPartition s) of
           Inl e \<Rightarrow> Inl e
         | Inr s1 \<Rightarrow> computeEnergies s1)"

lemma cluster_unfold:
  "cluster s part =
     (case cluster_entry s part of
        Inl e \<Rightarrow> Some (Inl e)
      | Inr s2 \<Rightarrow>
          if numclusters s2 < 2 then Some (Inr s2)
          else (case cluster_while s2 of
                  None \<Rightarrow> None
                | Some (Inl e) \<Rightarrow> Some (Inl e)
                | Some (Inr s3) \<Rightarrow> Some (computeEnergies s3)))"
  by (simp add: cluster_def cluster_entry_def Let_def split: sum.splits option.splits)

lemma sweep_loop_frame:
  "sweep_loop s j transfers = Inr (s', t') \<Longrightarrow>
   threshold s' = threshold s \<and> numclusters s' = numclusters s \<and>
   maxiter s' = maxiter s \<and> iterations s' = iterations s \<and>
   samples s' = samples s \<and> initialized s' = initialized s \<and>
   dimensions s' = dimensions s"
proof (induction s j transfers rule: sweep_loop.induct)
  case (1 s j transfers)
  note unf = sweep_loop.simps[of s j transfers]
  show ?case
  proof (cases "j < numclusters s")
    case False
    with "1.prems" show ?thesis by (simp add: unf)
  next
    case c1: True
    show ?thesis
    proof (cases "length (clusters s ! j) < 2")
      case True
      with c1 "1.prems" have "sweep_loop s (j + 1) transfers = Inr (s', t')"
        by (simp add: unf Let_def)
      from "1.IH"(1)[OF c1 refl refl True this] show ?thesis .
    next
      case c2: False
      let ?l = "if j > 0 then left_scan s j (clusters s ! j) (length (clusters s ! j)) 0 transfers
                else Inr (s, transfers)"
      show ?thesis
      proof (cases ?l)
        case (Inl e)
        with c1 c2 "1.prems" show ?thesis by (simp add: unf Let_def)
      next
        case (Inr p1)
        obtain s1 t1 where p1: "p1 = (s1, t1)" by (cases p1)
        have f1: "threshold s1 = threshold s \<and> numclusters s1 = numclusters s \<and>
            maxiter s1 = maxiter s \<and> iterations s1 = iterations s \<and>
            samples s1 = samples s \<and> initialized s1 = initialized s \<and>
            dimensions s1 = dimensions s"
          using Inr p1 by (auto split: if_splits dest: left_scan_frame)
        show ?thesis
        proof (cases "length (clusters s1 ! j) < 2")
          case True
          with c1 c2 Inr p1 "1.prems" have "sweep_loop s1 (j + 1) t1 = Inr (s', t')"
            by (simp add: unf Let_def)
          from "1.IH"(2)[OF c1 refl refl c2 Inr[unfolded p1] refl refl refl True this] f1
          show ?thesis by simp
        next
          case c3: False
          let ?r = "if j + 1 < numclusters s1
                    then right_scan s1 j (clusters s1 ! j) (length (clusters s1 ! j))
                           (int (length (clusters s1 ! j)) - 1) t1
                    else Inr (s1, t1)"
          show ?thesis
          proof (cases ?r)
            case (Inl e)
            with c1 c2 c3 Inr p1 "1.prems" show ?thesis by (simp add: unf Let_def)
          next
            case r: (Inr p2)
            obtain s2 t2 where p2: "p2 = (s2, t2)" by (cases p2)
            have f2: "threshold s2 = threshold s1 \<and> numclusters s2 = numclusters s1 \<and>
                maxiter s2 = maxiter s1 \<and> iterations s2 = iterations s1 \<and>
                samples s2 = samples s1 \<and> initialized s2 = initialized s1 \<and>
                dimensions s2 = dimensions s1"
              using r p2 by (auto split: if_splits dest: right_scan_frame)
            from c1 c2 c3 Inr p1 r p2 "1.prems"
            have "sweep_loop s2 (j + 1) t2 = Inr (s', t')"
              by (simp add: unf Let_def)
            from "1.IH"(3)[OF c1 refl refl c2 Inr[unfolded p1] refl refl refl c3
                r[unfolded p2] refl this] f1 f2
            show ?thesis by simp
          qed
        qed
      qed
    qed
  qed
qed


lemma sweeps_frame:
  "sweeps k s = Inr t \<Longrightarrow>
   iterations t = iterations s + k \<and> maxiter t = maxiter s \<and> numclusters t = numclusters s"
proof (induction k arbitrary: s)
  case 0
  then show ?case by simp
next
  case (Suc k)
  from Suc.prems obtain s1 tr where sw: "sweep_loop s 0 False = Inr (s1, tr)"
    and rec: "sweeps k (s1\<lparr>iterations := iterations s1 + 1\<rparr>) = Inr t"
    by (auto split: sum.splits)
  from Suc.IH[OF rec] sweep_loop_frame[OF sw] show ?case by simp
qed

lemma sweeps_Suc_right:
  "sweeps (Suc k) s =
     (case sweeps k s of
        Inl e \<Rightarrow> Inl e
      | Inr t \<Rightarrow> (case sweep_loop t 0 False of
                    Inl e \<Rightarrow> Inl e
                  | Inr (t', transfers) \<Rightarrow> Inr (t'\<lparr>iterations := iterations t' + 1\<rparr>)))"
proof (induction k arbitrary: s)
  case 0
  show ?case by (simp split: sum.splits)
next
  case (Suc k)
  show ?case
  proof (cases "sweep_loop s 0 False")
    case (Inl e)
    then show ?thesis by simp
  next
    case (Inr p)
    obtain s1 tr where p: "p = (s1, tr)" by (cases p)
    have "sweeps (Suc (Suc k)) s = sweeps (Suc k) (s1\<lparr>iterations := iterations s1 + 1\<rparr>)"
      using Inr p by simp
    also note Suc.IH[of "s1\<lparr>iterations := iterations s1 + 1\<rparr>"]
    finally show ?thesis using Inr p by simp
  qed
qed

text \<open>
  What a run of the loop that exits after \<open>k\<close> sweeps looks like: every sweep before the
  last one completed and accepted a move, and the result is the outcome of \<open>k\<close> sweeps.
\<close>

definition exits_after :: "wkm \<Rightarrow> nat \<Rightarrow> error + wkm \<Rightarrow> bool" where
  "exits_after s k r \<longleftrightarrow>
     1 \<le> k \<and> r = sweeps k s \<and> (\<forall>i<k - 1. accepted (sweeps i s)) \<and>
     (accepted (sweeps (k - 1) s) \<longrightarrow> iterations s + k = maxiter s)"

lemma exits_after_step:
  assumes sw: "sweep_loop s 0 False = Inr (s1, True)"
    and ex: "exits_after (s1\<lparr>iterations := iterations s1 + 1\<rparr>) k r"
  shows "exits_after s (Suc k) r"
proof -
  let ?s2 = "s1\<lparr>iterations := iterations s1 + 1\<rparr>"
  have shift: "\<And>i. sweeps (Suc i) s = sweeps i ?s2" using sw by simp
  have a0: "accepted (sweeps 0 s)" using sw by (simp add: accepted_def)
  from ex have k: "1 \<le> k" and r: "r = sweeps k ?s2"
    and all: "\<forall>i<k - 1. accepted (sweeps i ?s2)"
    and last: "accepted (sweeps (k - 1) ?s2) \<longrightarrow> iterations ?s2 + k = maxiter ?s2"
    by (auto simp: exits_after_def)
  have "\<forall>i<k. accepted (sweeps i s)"
  proof (intro allI impI)
    fix i assume "i < k"
    show "accepted (sweeps i s)"
    proof (cases i)
      case 0
      with a0 show ?thesis by simp
    next
      case (Suc i')
      with \<open>i < k\<close> all shift[of i'] show ?thesis by simp
    qed
  qed
  moreover have "accepted (sweeps k s) \<longrightarrow> iterations s + Suc k = maxiter s"
  proof
    assume "accepted (sweeps k s)"
    with k shift[of "k - 1"] have "accepted (sweeps (k - 1) ?s2)" by simp
    with last sweep_loop_frame[OF sw] show "iterations s + Suc k = maxiter s" by simp
  qed
  ultimately show ?thesis using r shift[of k] by (simp add: exits_after_def)
qed

lemma cluster_while_terminates:
  "iterations s < maxiter s \<Longrightarrow>
   \<exists>k r. cluster_while s = Some r \<and> k \<le> maxiter s - iterations s \<and> exits_after s k r"
proof (induction "maxiter s - iterations s" arbitrary: s)
  case 0
  then show ?case by simp
next
  case (Suc n)
  show ?case
  proof (cases "sweep_loop s 0 False")
    case (Inl e)
    then have "cluster_while s = Some (Inl e)" by (subst cluster_while.simps) simp
    moreover have "exits_after s 1 (Inl e)" using Inl by (simp add: exits_after_def accepted_def)
    ultimately show ?thesis using Suc.prems by (intro exI[of _ 1] exI[of _ "Inl e"]) simp
  next
    case (Inr p)
    obtain s1 tr where p: "p = (s1, tr)" by (cases p)
    let ?s2 = "s1\<lparr>iterations := iterations s1 + 1\<rparr>"
    note fr = sweep_loop_frame[OF Inr[unfolded p]]
    show ?thesis
    proof (cases "\<not> tr \<or> iterations ?s2 = maxiter ?s2")
      case True
      then have "cluster_while s = Some (Inr ?s2)"
        using Inr p by (subst cluster_while.simps) (simp add: Let_def)
      moreover have "exits_after s 1 (Inr ?s2)"
        using Inr p True fr by (auto simp: exits_after_def accepted_def)
      ultimately show ?thesis using Suc.prems by (intro exI[of _ 1] exI[of _ "Inr ?s2"]) simp
    next
      case False
      then have tr: "tr" and ne: "iterations ?s2 \<noteq> maxiter ?s2" by auto
      have cw: "cluster_while s = cluster_while ?s2"
        using Inr p False by (subst cluster_while.simps) (simp add: Let_def)
      have lt: "iterations ?s2 < maxiter ?s2" using ne fr Suc.prems by simp
      have n: "n = maxiter ?s2 - iterations ?s2" using Suc.hyps(2) fr by simp
      from Suc.hyps(1)[OF n lt] obtain k r where
        r: "cluster_while ?s2 = Some r" and k: "k \<le> maxiter ?s2 - iterations ?s2"
        and ex: "exits_after ?s2 k r" by blast
      have "exits_after s (Suc k) r"
        using exits_after_step[OF _ ex] Inr p tr by simp
      moreover have "Suc k \<le> maxiter s - iterations s" using k lt fr by simp
      ultimately show ?thesis using r cw by (intro exI[of _ "Suc k"] exI[of _ r]) simp
    qed
  qed
qed

lemma cluster_while_past_cap_aux:
  assumes "cluster_while s = Some r"
  shows "maxiter s \<le> iterations s \<longrightarrow>
   (\<exists>k. r = sweeps (Suc k) s \<and> (\<forall>i<k. accepted (sweeps i s)) \<and> \<not> accepted (sweeps k s))"
  using assms
proof (induction rule: cluster_while.raw_induct[rotated 1, consumes 1])
  case (1 f s r)
  show ?case
  proof
    assume cap: "maxiter s \<le> iterations s"
    show "\<exists>k. r = sweeps (Suc k) s \<and> (\<forall>i<k. accepted (sweeps i s)) \<and> \<not> accepted (sweeps k s)"
    proof (cases "sweep_loop s 0 False")
      case (Inl e)
      with 1(2) have "r = Inl e" by simp
      with Inl show ?thesis by (intro exI[of _ 0]) (simp add: accepted_def)
    next
      case (Inr p)
      obtain s1 tr where p: "p = (s1, tr)" by (cases p)
      let ?s2 = "s1\<lparr>iterations := iterations s1 + 1\<rparr>"
      note fr = sweep_loop_frame[OF Inr[unfolded p]]
      have ncap: "iterations ?s2 \<noteq> maxiter ?s2" using fr cap by simp
      show ?thesis
      proof (cases tr)
        case False
        with 1(2) Inr p have "r = Inr ?s2" by (simp add: Let_def)
        with Inr p False show ?thesis by (intro exI[of _ 0]) (simp add: accepted_def)
      next
        case True
        with 1(2) Inr p ncap have "f ?s2 = Some r" by (simp add: Let_def)
        moreover have "maxiter ?s2 \<le> iterations ?s2" using fr cap by simp
        ultimately obtain k where k: "r = sweeps (Suc k) ?s2"
          "\<forall>i<k. accepted (sweeps i ?s2)" "\<not> accepted (sweeps k ?s2)"
          using 1(1) by blast
        have shift: "\<And>i. sweeps (Suc i) s = sweeps i ?s2" using Inr p by simp
        have a0: "accepted (sweeps 0 s)" using Inr p True by (simp add: accepted_def)
        have "\<forall>i<Suc k. accepted (sweeps i s)"
        proof (intro allI impI)
          fix i assume "i < Suc k"
          then show "accepted (sweeps i s)"
            using a0 k(2) shift by (cases i) auto
        qed
        with k shift show ?thesis by (intro exI[of _ "Suc k"]) simp
      qed
    qed
  qed
qed


text \<open>Every segment below \<^verbatim>\<open>numclusters\<close> is present and non-empty.\<close>

definition clusters_ok :: "wkm \<Rightarrow> bool" where
  "clusters_ok s \<longleftrightarrow> (\<forall>j<numclusters s. j < length (clusters s) \<and> clusters s ! j \<noteq> [])"

lemma js_set_length: "i < length (js_set hole xs i v)"
  by (simp add: js_set_def)

lemma js_set_nth_other: "k < i \<Longrightarrow> k < length xs \<Longrightarrow> js_set hole xs i v ! k = xs ! k"
  by (simp add: js_set_def nth_append)

lemma js_set_length_mono: "length xs \<le> length (js_set hole xs i v)"
  by (simp add: js_set_def)

lemma getPartition_loop_ok:
  "getPartition_loop s j = Inr s' \<Longrightarrow>
   (\<forall>k<j. k < length (clusters s) \<and> clusters s ! k \<noteq> []) \<Longrightarrow> j \<le> numclusters s \<Longrightarrow>
   clusters_ok s'"
proof (induction s j rule: getPartition_loop.induct)
  case (1 s j)
  note unf = getPartition_loop.simps[of s j]
  show ?case
  proof (cases "j < numclusters s")
    case False
    with "1.prems" have "s' = s" "j = numclusters s" by (simp_all add: unf)
    with "1.prems"(2) show ?thesis by (simp add: clusters_ok_def)
  next
    case True
    define s1 where "s1 = s\<lparr>clusters := js_set [] (clusters s) j (getClusterSamples s j)\<rparr>"
    from True "1.prems"(1) have ne: "length (clusters s1 ! j) \<noteq> 0"
      and rec: "getPartition_loop s1 (j + 1) = Inr s'"
      by (auto simp: unf s1_def Let_def split: if_splits)
    have "\<forall>k<j + 1. k < length (clusters s1) \<and> clusters s1 ! k \<noteq> []"
    proof (intro allI impI)
      fix k assume "k < j + 1"
      show "k < length (clusters s1) \<and> clusters s1 ! k \<noteq> []"
      proof (cases "k = j")
        case True
        with ne show ?thesis by (simp add: s1_def js_set_length)
      next
        case False
        with \<open>k < j + 1\<close> have kj: "k < j" by simp
        with "1.prems"(2) have "k < length (clusters s)" "clusters s ! k \<noteq> []" by auto
        with kj js_set_length_mono[of "clusters s" "[]" j "getClusterSamples s j"]
        show ?thesis by (simp add: s1_def js_set_nth_other)
      qed
    qed
    moreover have "j + 1 \<le> numclusters s1" using True by (simp add: s1_def)
    ultimately show ?thesis using "1.IH"[OF True s1_def ne rec] by blast
  qed
qed

lemma getPartition_ok: "getPartition s = Inr s' \<Longrightarrow> clusters_ok s'"
  unfolding getPartition_def by (erule getPartition_loop_ok) simp_all

lemma transfer_ok: "transfer s sample j b n m = Inr s' \<Longrightarrow> clusters_ok s'"
  unfolding transfer_def Let_def by (rule getPartition_ok)

lemma clusters_ok_cost [simp]: "clusters_ok (s\<lparr>cost := c\<rparr>) = clusters_ok s"
  by (simp add: clusters_ok_def)

lemma clusters_ok_iterations [simp]: "clusters_ok (s\<lparr>iterations := c\<rparr>) = clusters_ok s"
  by (simp add: clusters_ok_def)

lemma left_scan_ok:
  "left_scan s j points n i transfers = Inr (s', t') \<Longrightarrow> clusters_ok s \<Longrightarrow> clusters_ok s'"
proof (induction s j points n i transfers rule: left_scan.induct)
  case (1 s j points n i transfers)
  note unf = left_scan.simps[of s j points n i transfers]
  show ?case
  proof (cases "int i \<le> \<lfloor>real n / 2 * (1 - threshold s)\<rfloor> + 1")
    case False
    with "1.prems" show ?thesis by (simp add: unf)
  next
    case c1: True
    show ?thesis
    proof (cases "js_get points i")
      case None
      with c1 "1.prems" show ?thesis by (simp add: unf)
    next
      case (Some sample)
      let ?m = "length (clusters s ! (j - 1))"
      let ?s1 = "s\<lparr>cost := cost s + 1\<rparr>"
      let ?acc = "J1 s sample (j - 1) ?m - J2 s sample j n < 0 \<and> length (clusters ?s1 ! j) > 1"
      let ?s1' = "?s1\<lparr>numtransfers := numtransfers ?s1 + 1,
                     boundaries := (boundaries ?s1)[j := boundaries ?s1 ! j + 1]\<rparr>"
      show ?thesis
      proof (cases ?acc)
        case False
        with c1 Some "1.prems" have "s' = ?s1"
          by (simp add: unf Let_def split: if_splits)
        with "1.prems"(2) show ?thesis by simp
      next
        case acc: True
        show ?thesis
        proof (cases "transfer ?s1' sample j (j - 1) n ?m")
          case (Inl e)
          with c1 Some acc "1.prems" show ?thesis by (simp add: unf Let_def)
        next
          case (Inr s2)
          with c1 Some acc "1.prems"
          have rec: "left_scan s2 j points n (i + 1) True = Inr (s', t')"
            by (simp add: unf Let_def)
          show ?thesis
            by (rule "1.IH"[OF c1 Some refl refl refl refl acc Inr rec transfer_ok[OF Inr]])
        qed
      qed
    qed
  qed
qed

lemma right_scan_ok:
  "right_scan s j points n i transfers = Inr (s', t') \<Longrightarrow> clusters_ok s \<Longrightarrow> clusters_ok s'"
proof (induction s j points n i transfers rule: right_scan.induct)
  case (1 s j points n i transfers)
  note unf = right_scan.simps[of s j points n i transfers]
  show ?case
  proof (cases "i \<ge> \<lfloor>real n / 2 * (1 + threshold s)\<rfloor> - 2")
    case False
    with "1.prems" show ?thesis by (simp add: unf)
  next
    case c1: True
    show ?thesis
    proof (cases "if 0 \<le> i then js_get points (nat i) else None")
      case None
      with c1 "1.prems" show ?thesis by (simp add: unf)
    next
      case (Some sample)
      let ?m = "length (clusters s ! (j + 1))"
      let ?s1 = "s\<lparr>cost := cost s + 1\<rparr>"
      let ?acc = "J1 s sample (j + 1) ?m - J2 s sample j n < 0 \<and> length (clusters ?s1 ! j) > 1"
      let ?s1' = "?s1\<lparr>numtransfers := numtransfers ?s1 + 1,
                     boundaries := (boundaries ?s1)[j + 1 := boundaries ?s1 ! (j + 1) - 1]\<rparr>"
      show ?thesis
      proof (cases ?acc)
        case False
        with c1 Some "1.prems" have "s' = ?s1"
          by (simp add: unf Let_def split: if_splits)
        with "1.prems"(2) show ?thesis by simp
      next
        case acc: True
        show ?thesis
        proof (cases "transfer ?s1' sample j (j + 1) n ?m")
          case (Inl e)
          with c1 Some acc "1.prems" show ?thesis by (simp add: unf Let_def)
        next
          case (Inr s2)
          with c1 Some acc "1.prems"
          have rec: "right_scan s2 j points n (i - 1) True = Inr (s', t')"
            by (simp add: unf Let_def)
          show ?thesis
            by (rule "1.IH"[OF c1 Some refl refl refl refl acc Inr rec transfer_ok[OF Inr]])
        qed
      qed
    qed
  qed
qed


lemma sweep_loop_ok:
  "sweep_loop s j transfers = Inr (s', t') \<Longrightarrow> clusters_ok s \<Longrightarrow> clusters_ok s'"
proof (induction s j transfers rule: sweep_loop.induct)
  case (1 s j transfers)
  note unf = sweep_loop.simps[of s j transfers]
  show ?case
  proof (cases "j < numclusters s")
    case False
    with "1.prems" show ?thesis by (simp add: unf)
  next
    case c1: True
    show ?thesis
    proof (cases "length (clusters s ! j) < 2")
      case True
      with c1 "1.prems" have "sweep_loop s (j + 1) transfers = Inr (s', t')"
        by (simp add: unf Let_def)
      from "1.IH"(1)[OF c1 refl refl True this "1.prems"(2)] show ?thesis .
    next
      case c2: False
      let ?l = "if j > 0 then left_scan s j (clusters s ! j) (length (clusters s ! j)) 0 transfers
                else Inr (s, transfers)"
      show ?thesis
      proof (cases ?l)
        case (Inl e)
        with c1 c2 "1.prems" show ?thesis by (simp add: unf Let_def)
      next
        case (Inr p1)
        obtain s1 t1 where p1: "p1 = (s1, t1)" by (cases p1)
        have ok1: "clusters_ok s1"
          using Inr p1 "1.prems"(2) by (auto split: if_splits dest: left_scan_ok)
        show ?thesis
        proof (cases "length (clusters s1 ! j) < 2")
          case True
          with c1 c2 Inr p1 "1.prems" have "sweep_loop s1 (j + 1) t1 = Inr (s', t')"
            by (simp add: unf Let_def)
          from "1.IH"(2)[OF c1 refl refl c2 Inr[unfolded p1] refl refl refl True this ok1]
          show ?thesis .
        next
          case c3: False
          let ?r = "if j + 1 < numclusters s1
                    then right_scan s1 j (clusters s1 ! j) (length (clusters s1 ! j))
                           (int (length (clusters s1 ! j)) - 1) t1
                    else Inr (s1, t1)"
          show ?thesis
          proof (cases ?r)
            case (Inl e)
            with c1 c2 c3 Inr p1 "1.prems" show ?thesis by (simp add: unf Let_def)
          next
            case r: (Inr p2)
            obtain s2 t2 where p2: "p2 = (s2, t2)" by (cases p2)
            have ok2: "clusters_ok s2"
              using r p2 ok1 by (auto split: if_splits dest: right_scan_ok)
            from c1 c2 c3 Inr p1 r p2 "1.prems"
            have "sweep_loop s2 (j + 1) t2 = Inr (s', t')"
              by (simp add: unf Let_def)
            from "1.IH"(3)[OF c1 refl refl c2 Inr[unfolded p1] refl refl refl c3
                r[unfolded p2] refl this ok2]
            show ?thesis .
          qed
        qed
      qed
    qed
  qed
qed

lemma sweeps_ok: "sweeps k s = Inr t \<Longrightarrow> clusters_ok s \<Longrightarrow> clusters_ok t"
proof (induction k arbitrary: s)
  case 0
  then show ?case by simp
next
  case (Suc k)
  from Suc.prems(1) obtain s1 tr where sw: "sweep_loop s 0 False = Inr (s1, tr)"
    and rec: "sweeps k (s1\<lparr>iterations := iterations s1 + 1\<rparr>) = Inr t"
    by (auto split: sum.splits)
  from sweep_loop_ok[OF sw Suc.prems(2)] have "clusters_ok (s1\<lparr>iterations := iterations s1 + 1\<rparr>)"
    by simp
  from Suc.IH[OF rec this] show ?case .
qed

lemma clustercenter_Some: "points \<noteq> [] \<Longrightarrow> \<exists>c. clustercenter points = Some c"
  by (cases points) (simp_all add: clustercenter_def)

lemma computeEnergies_loop_frame:
  "computeEnergies_loop s j = Inr s' \<Longrightarrow>
   clusters s' = clusters s \<and> numclusters s' = numclusters s \<and> maxiter s' = maxiter s \<and>
   iterations s' = iterations s \<and> initialized s' = initialized s \<and>
   boundaries s' = boundaries s \<and> samples s' = samples s \<and>
   numtransfers s' = numtransfers s \<and>
   (\<forall>k. j \<le> k \<and> k < numclusters s \<longrightarrow> k < length (clusters s) \<and> clusters s ! k \<noteq> [])"
proof (induction s j rule: computeEnergies_loop.induct)
  case (1 s j)
  note unf = computeEnergies_loop.simps[of s j]
  show ?case
  proof (cases "j < numclusters s")
    case False
    with "1.prems" have "s' = s" by (simp add: unf)
    with False show ?thesis by auto
  next
    case True
    from True "1.prems" obtain points where g: "js_get (clusters s) j = Some points"
      by (auto simp: unf split: option.splits)
    with True "1.prems" have ne: "\<not> length points = 0"
      by (auto simp: unf split: if_splits)
    with True g "1.prems" obtain c where c: "clustercenter points = Some c"
      by (auto simp: unf split: option.splits)
    define energy where "energy = sum_list (map (\<lambda>p. sqL2 p c) points)"
    let ?s1 = "s\<lparr>centroids := js_set [] (centroids s) j c,
                 localenergy := js_set 0 (localenergy s) j energy,
                 totalenergy := totalenergy s + energy\<rparr>"
    from True g ne c "1.prems" have rec: "computeEnergies_loop ?s1 (j + 1) = Inr s'"
      by (simp add: unf Let_def energy_def)
    note ih = "1.IH"[OF True g ne c energy_def rec]
    from g have gj: "j < length (clusters s) \<and> clusters s ! j = points"
      by (auto simp: js_get_def split: if_splits)
    have "\<forall>k. j \<le> k \<and> k < numclusters s \<longrightarrow> k < length (clusters s) \<and> clusters s ! k \<noteq> []"
    proof (intro allI impI)
      fix k assume k: "j \<le> k \<and> k < numclusters s"
      show "k < length (clusters s) \<and> clusters s ! k \<noteq> []"
      proof (cases "k = j")
        case True
        with gj ne show ?thesis by auto
      next
        case False
        with k have "j + 1 \<le> k \<and> k < numclusters ?s1" by simp
        with ih show ?thesis by simp
      qed
    qed
    with ih show ?thesis by simp
  qed
qed

lemma computeEnergies_loop_total:
  "(\<forall>k. j \<le> k \<and> k < numclusters s \<longrightarrow> k < length (clusters s) \<and> clusters s ! k \<noteq> []) \<Longrightarrow>
   \<exists>s'. computeEnergies_loop s j = Inr s'"
proof (induction s j rule: computeEnergies_loop.induct)
  case (1 s j)
  note unf = computeEnergies_loop.simps[of s j]
  show ?case
  proof (cases "j < numclusters s")
    case False
    then show ?thesis by (simp add: unf)
  next
    case True
    with "1.prems" have gj: "j < length (clusters s)" "clusters s ! j \<noteq> []" by auto
    then have g: "js_get (clusters s) j = Some (clusters s ! j)" by (simp add: js_get_def)
    from gj have ne: "\<not> length (clusters s ! j) = 0" by simp
    from clustercenter_Some[OF gj(2)] obtain c where c: "clustercenter (clusters s ! j) = Some c" ..
    define energy where "energy = sum_list (map (\<lambda>p. sqL2 p c) (clusters s ! j))"
    let ?s1 = "s\<lparr>centroids := js_set [] (centroids s) j c,
                 localenergy := js_set 0 (localenergy s) j energy,
                 totalenergy := totalenergy s + energy\<rparr>"
    have "\<exists>s'. computeEnergies_loop ?s1 (j + 1) = Inr s'"
      using "1.prems" by (intro "1.IH"[OF True g ne c energy_def]) simp
    with True g ne c show ?thesis by (simp add: unf Let_def energy_def)
  qed
qed

lemma computeEnergies_frame:
  "computeEnergies s = Inr s' \<Longrightarrow>
   clusters s' = clusters s \<and> numclusters s' = numclusters s \<and> maxiter s' = maxiter s \<and>
   iterations s' = iterations s \<and> initialized s' = initialized s \<and>
   boundaries s' = boundaries s \<and> samples s' = samples s \<and>
   numtransfers s' = numtransfers s \<and> clusters_ok s"
  unfolding computeEnergies_def
  by (drule computeEnergies_loop_frame) (simp add: clusters_ok_def)

lemma computeEnergies_total: "clusters_ok s \<Longrightarrow> \<exists>s'. computeEnergies s = Inr s'"
  unfolding computeEnergies_def
  by (rule computeEnergies_loop_total) (simp add: clusters_ok_def)

lemma setPartition_loop_frame:
  "setPartition_loop s j p = Inr s' \<Longrightarrow>
   numclusters s' = numclusters s \<and> maxiter s' = maxiter s \<and>
   iterations s' = iterations s \<and> initialized s' = initialized s"
proof (induction p arbitrary: s j)
  case Nil
  then show ?case by simp
next
  case (Cons points rest)
  from Cons.prems have ne: "points \<noteq> []" by (auto split: if_splits)
  let ?s1 = "s\<lparr>clusters := js_set [] (clusters s) j points\<rparr>"
  let ?s2 = "if j > 0 then ?s1\<lparr>boundaries := boundaries ?s1 @ [int (length points) - 1]\<rparr> else ?s1"
  from Cons.prems ne have "setPartition_loop ?s2 (j + 1) rest = Inr s'"
    by (simp add: Let_def)
  from Cons.IH[OF this] show ?case by (simp split: if_splits)
qed

lemma init_frame:
  "numclusters (init s m) = numclusters s \<and> maxiter (init s m) = maxiter s \<and>
   iterations (init s m) = 0"
  by (simp add: init_def initdefault_def resample_def TS_def reset_def Let_def
        split: option.splits)

lemma cluster_entry_frame:
  assumes "cluster_entry s part = Inr s0"
  shows "numclusters s0 = numclusters s \<and> maxiter s0 = maxiter s \<and>
         iterations s0 = (if initialized s then iterations s else 0) \<and> clusters_ok s0"
proof -
  let ?s = "if \<not> initialized s then init s None else s"
  have f0: "numclusters ?s = numclusters s \<and> maxiter ?s = maxiter s \<and>
            iterations ?s = (if initialized s then iterations s else 0)"
    using init_frame[of s None] by simp
  from assms obtain s1 where
    s1: "(case part of Some p \<Rightarrow> setPartition ?s p | None \<Rightarrow> getPartition ?s) = Inr s1"
    and ce: "computeEnergies s1 = Inr s0"
    by (auto simp: cluster_entry_def Let_def split: sum.splits)
  have f1: "numclusters s1 = numclusters ?s \<and> maxiter s1 = maxiter ?s \<and>
            iterations s1 = iterations ?s"
  proof (cases part)
    case None
    with s1 have "getPartition_loop ?s 0 = Inr s1" by (simp add: getPartition_def)
    from getPartition_loop_clusters[OF this] show ?thesis by auto
  next
    case (Some p)
    with s1 have "setPartition_loop (?s\<lparr>boundaries := [0], clusters := []\<rparr>) 0 p = Inr s1"
      by (simp add: setPartition_def)
    from setPartition_loop_frame[OF this] show ?thesis by simp
  qed
  from computeEnergies_frame[OF ce] have "clusters_ok s0"
    by (simp add: clusters_ok_def)
  with computeEnergies_frame[OF ce] f0 f1 show ?thesis by simp
qed

lemma accepted_next:
  "accepted (sweeps i s) \<Longrightarrow> \<exists>t. sweeps (Suc i) s = Inr t"
  unfolding sweeps_Suc_right accepted_def
  by (auto split: sum.splits)

text \<open>
  Claim C5, as amended. A call of \<^verbatim>\<open>cluster\<close> on an instance whose sweep counter is 0
  (or that is not initialised, so that \<^verbatim>\<open>init\<close> resets the counter) terminates: it
  returns a result \<open>r\<close>. If the part before the loop raises, \<open>r\<close> is that error. Otherwise
  the loop runs \<open>k\<close> sweeps with \<open>1 \<le> k \<le> maxiter\<close> (the constructor sets \<^verbatim>\<open>maxiter\<close> to
  100), every sweep before the last one completed with an accepted move, and \<open>r\<close> is the
  error of the \<open>k\<close>-th sweep or the final recomputation of the energies, which succeeds,
  with sweep counter \<open>k\<close>. If each of the first \<open>maxiter\<close> sweeps completes with an accepted
  move, the call halts after exactly \<open>maxiter\<close> sweeps and returns without an error.
\<close>

theorem first_fit_terminates:
  assumes "iterations s = 0 \<or> \<not> initialized s" and "0 < maxiter s"
  shows "\<exists>r. cluster s part = Some r \<and>
     (case cluster_entry s part of
        Inl e \<Rightarrow> r = Inl e
      | Inr s0 \<Rightarrow>
          if numclusters s0 < 2 then r = Inr s0
          else (\<exists>k. 1 \<le> k \<and> k \<le> maxiter s \<and> (\<forall>i<k - 1. accepted (sweeps i s0)) \<and>
                 (case sweeps k s0 of
                    Inl e \<Rightarrow> r = Inl e
                  | Inr t \<Rightarrow> (\<exists>s'. r = Inr s' \<and> computeEnergies t = Inr s' \<and>
                                   iterations s' = k)) \<and>
                 ((\<forall>i<maxiter s. accepted (sweeps i s0)) \<longrightarrow>
                    k = maxiter s \<and> (\<exists>s'. r = Inr s'))))"
proof (cases "cluster_entry s part")
  case (Inl e)
  show ?thesis unfolding cluster_unfold Inl by simp
next
  case (Inr s0)
  note fr = cluster_entry_frame[OF Inr]
  from fr assms(1) have it0: "iterations s0 = 0" by auto
  show ?thesis
  proof (cases "numclusters s0 < 2")
    case True
    then show ?thesis unfolding cluster_unfold Inr by simp
  next
    case False
    from it0 assms(2) fr have "iterations s0 < maxiter s0" by simp
    from cluster_while_terminates[OF this] obtain k rw where
      cw: "cluster_while s0 = Some rw" and kle: "k \<le> maxiter s0 - iterations s0"
      and ex: "exits_after s0 k rw" by blast
    from ex have k1: "1 \<le> k" by (simp add: exits_after_def)
    from ex have rw: "rw = sweeps k s0" by (simp add: exits_after_def)
    from ex have allacc: "\<forall>i<k - 1. accepted (sweeps i s0)" by (simp add: exits_after_def)
    from ex have last: "accepted (sweeps (k - 1) s0) \<longrightarrow> iterations s0 + k = maxiter s0"
      by (simp add: exits_after_def)
    from kle fr have kle': "k \<le> maxiter s" by simp
    define r where "r = (case rw of Inl e \<Rightarrow> Inl e | Inr t \<Rightarrow> computeEnergies t)"
    have cl: "cluster s part = Some r"
      unfolding cluster_unfold Inr using False cw by (cases rw) (simp_all add: r_def)
    have res: "case sweeps k s0 of
                 Inl e \<Rightarrow> r = Inl e
               | Inr t \<Rightarrow> (\<exists>s'. r = Inr s' \<and> computeEnergies t = Inr s' \<and> iterations s' = k)"
    proof (cases "sweeps k s0")
      case (Inl e)
      with rw show ?thesis by (simp add: r_def)
    next
      case t: (Inr t)
      from sweeps_ok[OF t] fr have "clusters_ok t" by simp
      from computeEnergies_total[OF this] obtain s' where s': "computeEnergies t = Inr s'" ..
      from computeEnergies_frame[OF s'] sweeps_frame[OF t] it0
      have "iterations s' = k" by simp
      with t s' rw show ?thesis by (simp add: r_def)
    qed
    have cap: "(\<forall>i<maxiter s. accepted (sweeps i s0)) \<longrightarrow> k = maxiter s \<and> (\<exists>s'. r = Inr s')"
    proof
      assume a: "\<forall>i<maxiter s. accepted (sweeps i s0)"
      from k1 kle' have "k - 1 < maxiter s" by simp
      with a have ak: "accepted (sweeps (k - 1) s0)" by blast
      with last it0 fr have "k = maxiter s" by simp
      moreover from k1 have "Suc (k - 1) = k" by simp
      with accepted_next[OF ak] obtain t where t: "sweeps k s0 = Inr t" by auto
      from res have "\<exists>s'. r = Inr s'" unfolding t by auto
      ultimately show "k = maxiter s \<and> (\<exists>s'. r = Inr s')" by simp
    qed
    have "1 \<le> k \<and> k \<le> maxiter s \<and> (\<forall>i<k - 1. accepted (sweeps i s0)) \<and>
                 (case sweeps k s0 of
                    Inl e \<Rightarrow> r = Inl e
                  | Inr t \<Rightarrow> (\<exists>s'. r = Inr s' \<and> computeEnergies t = Inr s' \<and>
                                   iterations s' = k)) \<and>
                 ((\<forall>i<maxiter s. accepted (sweeps i s0)) \<longrightarrow>
                    k = maxiter s \<and> (\<exists>s'. r = Inr s'))"
      by (intro conjI k1 kle' allacc res cap)
    then have "\<exists>k. 1 \<le> k \<and> k \<le> maxiter s \<and> (\<forall>i<k - 1. accepted (sweeps i s0)) \<and>
                 (case sweeps k s0 of
                    Inl e \<Rightarrow> r = Inl e
                  | Inr t \<Rightarrow> (\<exists>s'. r = Inr s' \<and> computeEnergies t = Inr s' \<and>
                                   iterations s' = k)) \<and>
                 ((\<forall>i<maxiter s. accepted (sweeps i s0)) \<longrightarrow>
                    k = maxiter s \<and> (\<exists>s'. r = Inr s'))" ..
    with cl False show ?thesis unfolding Inr by (intro exI[of _ r]) simp
  qed
qed

theorem first_fit_terminates_witness:
  "iterations ((init (projr (WKM [[0], [0], [0], [2], [5]] 2 0)) None)\<lparr>maxiter := 2\<rparr>) = 0 \<and>
   0 < maxiter ((init (projr (WKM [[0], [0], [0], [2], [5]] 2 0)) None)\<lparr>maxiter := 2\<rparr>) \<and>
   (\<exists>s0. cluster_entry ((init (projr (WKM [[0], [0], [0], [2], [5]] 2 0)) None)\<lparr>maxiter := 2\<rparr>) None
            = Inr s0 \<and> 2 \<le> numclusters s0 \<and>
            accepted (sweeps 0 s0) \<and> accepted (sweeps 1 s0)) \<and>
   (\<exists>s'. cluster ((init (projr (WKM [[0], [0], [0], [2], [5]] 2 0)) None)\<lparr>maxiter := 2\<rparr>) None
            = Some (Inr s') \<and> iterations s' = 2)"
proof -
  let ?S = "(init (projr (WKM [[0], [0], [0], [2], [5]] 2 0)) None)\<lparr>maxiter := 2\<rparr>"
  have h1: "iterations ?S = 0 \<or> \<not> initialized ?S" by (simp add: eval_defs)
  have h2: "0 < maxiter ?S" by (simp add: eval_defs)
  have m: "maxiter ?S = 2" by (simp add: eval_defs)
  have en: "\<exists>s0. cluster_entry ?S None = Inr s0 \<and> \<not> numclusters s0 < 2 \<and>
              accepted (sweeps 0 s0) \<and> accepted (sweeps (Suc 0) s0)"
    by (simp add: eval_defs cluster_entry_def accepted_def)
  then obtain s0 where s0: "cluster_entry ?S None = Inr s0" and n2: "\<not> numclusters s0 < 2"
    and a0: "accepted (sweeps 0 s0)" and a1: "accepted (sweeps (Suc 0) s0)" by blast
  have all: "\<forall>i<2. accepted (sweeps i s0)"
  proof (intro allI impI)
    fix i :: nat assume "i < 2"
    then have "i = 0 \<or> i = Suc 0" by auto
    with a0 a1 show "accepted (sweeps i s0)" by auto
  qed
  from first_fit_terminates[OF h1 h2, of None] obtain r where
    r: "cluster ?S None = Some r" and
    c: "case cluster_entry ?S None of
        Inl e \<Rightarrow> r = Inl e
      | Inr s0 \<Rightarrow>
          if numclusters s0 < 2 then r = Inr s0
          else (\<exists>k. 1 \<le> k \<and> k \<le> maxiter ?S \<and> (\<forall>i<k - 1. accepted (sweeps i s0)) \<and>
                 (case sweeps k s0 of
                    Inl e \<Rightarrow> r = Inl e
                  | Inr t \<Rightarrow> (\<exists>s'. r = Inr s' \<and> computeEnergies t = Inr s' \<and>
                                   iterations s' = k)) \<and>
                 ((\<forall>i<maxiter ?S. accepted (sweeps i s0)) \<longrightarrow>
                    k = maxiter ?S \<and> (\<exists>s'. r = Inr s')))" by blast
  from c n2 obtain k where k: "case sweeps k s0 of
                    Inl e \<Rightarrow> r = Inl e
                  | Inr t \<Rightarrow> (\<exists>s'. r = Inr s' \<and> computeEnergies t = Inr s' \<and>
                                   iterations s' = k)"
     and cap: "(\<forall>i<maxiter ?S. accepted (sweeps i s0)) \<longrightarrow> k = maxiter ?S \<and> (\<exists>s'. r = Inr s')"
    unfolding s0 by auto
  from cap all m have k2: "k = 2" and "\<exists>s'. r = Inr s'" by auto
  then obtain s' where s': "r = Inr s'" by blast
  with k k2 have "iterations s' = 2" by (cases "sweeps k s0") auto
  with r s' have "\<exists>s'. cluster ?S None = Some (Inr s') \<and> iterations s' = 2" by blast
  moreover from s0 n2 a0 a1
  have "\<exists>s0. cluster_entry ?S None = Inr s0 \<and> 2 \<le> numclusters s0 \<and>
          accepted (sweeps 0 s0) \<and> accepted (sweeps 1 s0)"
    by (intro exI[of _ s0]) simp
  moreover have "iterations ?S = 0" by (simp add: eval_defs)
  ultimately show ?thesis using h2 by blast
qed

lemma L2_one_dimension: "L2 [a] [b] = \<bar>a - b\<bar>"
  by (simp add: L2_def sqL2_def)

text \<open>
  Claim C5 as stated fails: it promises, for every input, a halt after exactly 100 sweeps
  without an error unless a sweep with zero accepted moves comes first. The guards on
  empty segments raise before any sweep has run: \<^verbatim>\<open>setPartition\<close> for a supplied partition
  with an empty segment, and \<^verbatim>\<open>getPartition\<close> on an instance freshly initialised by trace
  segmentation whose samples 0, 0, 0, 10 put the third boundary at 4, past the last
  sample.
\<close>

theorem first_fit_raises_counterexample:
  "iterations (projr (WKM [[0], [9], [10], [11]] 2 0)) = 0 \<and>
   cluster (projr (WKM [[0], [9], [10], [11]] 2 0)) (Some [[[0], [9], [10]], []])
     = Some (Inl (EmptyCluster 1)) \<and>
   iterations (init (projr (WKM [[0], [0], [0], [10]] 3 0)) (Some ''ts'')) = 0 \<and>
   boundaries (init (projr (WKM [[0], [0], [0], [10]] 3 0)) (Some ''ts'')) = [0, 3, 4] \<and>
   cluster (init (projr (WKM [[0], [0], [0], [10]] 3 0)) (Some ''ts'')) None
     = Some (Inl (EmptyCluster 2))"
  by (simp add: eval_defs TS_loop.simps TS_advance.simps cumdist_values_def cumdist_length_def
        L2_one_dimension)

text \<open>
  The exits of \<^verbatim>\<open>cluster\<close> when the sweep counter is at or past \<^verbatim>\<open>maxiter\<close> on entry, for
  an initialised instance with two segments or more: the counter is kept, every exit test
  sees it past \<^verbatim>\<open>maxiter\<close>, and the loop ends at a sweep that did not complete with an
  accepted move.
\<close>

lemma cap_passed_exit_cases:
  assumes "initialized s" and "maxiter s \<le> iterations s" and "2 \<le> numclusters s"
  shows "(\<forall>r. cluster s part = Some r \<longrightarrow>
            (case cluster_entry s part of
               Inl e \<Rightarrow> r = Inl e
             | Inr s0 \<Rightarrow>
                 iterations s0 = iterations s \<and>
                 (\<exists>k. (\<forall>i<k. accepted (sweeps i s0)) \<and> \<not> accepted (sweeps k s0) \<and>
                    (case sweeps (Suc k) s0 of
                       Inl e \<Rightarrow> r = Inl e
                     | Inr t \<Rightarrow> r = computeEnergies t \<and>
                                 iterations t = iterations s + Suc k \<and>
                                 iterations t \<noteq> maxiter s)))) \<and>
         ((\<exists>s0. cluster_entry s part = Inr s0 \<and> (\<forall>k. accepted (sweeps k s0))) \<longrightarrow>
            cluster s part = None)"
proof -
  have main: "\<forall>r. cluster s part = Some r \<longrightarrow>
            (case cluster_entry s part of
               Inl e \<Rightarrow> r = Inl e
             | Inr s0 \<Rightarrow>
                 iterations s0 = iterations s \<and>
                 (\<exists>k. (\<forall>i<k. accepted (sweeps i s0)) \<and> \<not> accepted (sweeps k s0) \<and>
                    (case sweeps (Suc k) s0 of
                       Inl e \<Rightarrow> r = Inl e
                     | Inr t \<Rightarrow> r = computeEnergies t \<and>
                                 iterations t = iterations s + Suc k \<and>
                                 iterations t \<noteq> maxiter s)))"
  proof (intro allI impI)
    fix r assume cl: "cluster s part = Some r"
    show "case cluster_entry s part of
               Inl e \<Rightarrow> r = Inl e
             | Inr s0 \<Rightarrow>
                 iterations s0 = iterations s \<and>
                 (\<exists>k. (\<forall>i<k. accepted (sweeps i s0)) \<and> \<not> accepted (sweeps k s0) \<and>
                    (case sweeps (Suc k) s0 of
                       Inl e \<Rightarrow> r = Inl e
                     | Inr t \<Rightarrow> r = computeEnergies t \<and>
                                 iterations t = iterations s + Suc k \<and>
                                 iterations t \<noteq> maxiter s))"
    proof (cases "cluster_entry s part")
      case (Inl e)
      from cl have "r = Inl e" unfolding cluster_unfold Inl by simp
      with Inl show ?thesis by simp
    next
      case (Inr s0)
      note fr = cluster_entry_frame[OF Inr]
      from fr assms have it: "iterations s0 = iterations s" and big: "maxiter s0 \<le> iterations s0"
        and m2: "\<not> numclusters s0 < 2" by auto
      from cl have cl': "(case cluster_while s0 of
                  None \<Rightarrow> None
                | Some (Inl e) \<Rightarrow> Some (Inl e)
                | Some (Inr s3) \<Rightarrow> Some (computeEnergies s3)) = Some r"
        unfolding cluster_unfold Inr using m2 by simp
      then obtain rw where cw: "cluster_while s0 = Some rw"
        by (cases "cluster_while s0") auto
      with cl' have r: "r = (case rw of Inl e \<Rightarrow> Inl e | Inr t \<Rightarrow> computeEnergies t)"
        by (cases rw) auto
      from cluster_while_past_cap_aux[OF cw] big obtain k where
        rw: "rw = sweeps (Suc k) s0" and acc: "\<forall>i<k. accepted (sweeps i s0)"
        and nacc: "\<not> accepted (sweeps k s0)" by blast
      have "case sweeps (Suc k) s0 of
                       Inl e \<Rightarrow> r = Inl e
                     | Inr t \<Rightarrow> r = computeEnergies t \<and>
                                 iterations t = iterations s + Suc k \<and>
                                 iterations t \<noteq> maxiter s"
      proof (cases "sweeps (Suc k) s0")
        case (Inl e)
        with r rw show ?thesis by simp
      next
        case t: (Inr t)
        from sweeps_frame[OF t] it assms(2) fr
        have "iterations t = iterations s + Suc k \<and> iterations t \<noteq> maxiter s" by simp
        with t r rw show ?thesis by simp
      qed
      with acc nacc have "\<exists>k. (\<forall>i<k. accepted (sweeps i s0)) \<and> \<not> accepted (sweeps k s0) \<and>
                    (case sweeps (Suc k) s0 of
                       Inl e \<Rightarrow> r = Inl e
                     | Inr t \<Rightarrow> r = computeEnergies t \<and>
                                 iterations t = iterations s + Suc k \<and>
                                 iterations t \<noteq> maxiter s)"
        by (intro exI[of _ k]) simp
      with it show ?thesis unfolding Inr by simp
    qed
  qed
  have "(\<exists>s0. cluster_entry s part = Inr s0 \<and> (\<forall>k. accepted (sweeps k s0))) \<longrightarrow>
            cluster s part = None"
  proof
    assume "\<exists>s0. cluster_entry s part = Inr s0 \<and> (\<forall>k. accepted (sweeps k s0))"
    then obtain s0 where s0: "cluster_entry s part = Inr s0" and all: "\<forall>k. accepted (sweeps k s0)"
      by blast
    show "cluster s part = None"
    proof (cases "cluster s part")
      case None
      then show ?thesis .
    next
      case (Some r)
      with main have "case cluster_entry s part of
               Inl e \<Rightarrow> r = Inl e
             | Inr s0 \<Rightarrow>
                 iterations s0 = iterations s \<and>
                 (\<exists>k. (\<forall>i<k. accepted (sweeps i s0)) \<and> \<not> accepted (sweeps k s0) \<and>
                    (case sweeps (Suc k) s0 of
                       Inl e \<Rightarrow> r = Inl e
                     | Inr t \<Rightarrow> r = computeEnergies t \<and>
                                 iterations t = iterations s + Suc k \<and>
                                 iterations t \<noteq> maxiter s))" by blast
      then obtain k where "\<not> accepted (sweeps k s0)" unfolding s0 by auto
      with all show ?thesis by blast
    qed
  qed
  with main show ?thesis by blast
qed

text \<open>
  Claim C10, as amended. \<^verbatim>\<open>cluster\<close> on an initialised instance does not reset the sweep
  counter, and the exit test compares the counter with \<^verbatim>\<open>maxiter\<close> for equality. So when
  the counter is at or past \<^verbatim>\<open>maxiter\<close> on entry (with two segments or more, so that the
  loop runs): if the call returns, the loop ended at a sweep that completed and accepted
  zero moves, with the counter past \<^verbatim>\<open>maxiter\<close>, never at the cap; if the call raises, the
  error comes from the part before the loop or from a sweep; and if every sweep accepts a
  move the call does not return.
\<close>

theorem cap_passed_returns_only_after_idle_sweep:
  assumes "initialized s" and "maxiter s \<le> iterations s" and "2 \<le> numclusters s"
  shows "(\<forall>s'. cluster s part = Some (Inr s') \<longrightarrow>
            (\<exists>s0 k t t'. cluster_entry s part = Inr s0 \<and> iterations s0 = iterations s \<and>
               (\<forall>i<k. accepted (sweeps i s0)) \<and> sweeps k s0 = Inr t \<and>
               sweep_loop t 0 False = Inr (t', False) \<and>
               computeEnergies (t'\<lparr>iterations := iterations t' + 1\<rparr>) = Inr s' \<and>
               iterations s' = iterations s + Suc k \<and> iterations s' \<noteq> maxiter s)) \<and>
         (\<forall>e. cluster s part = Some (Inl e) \<longrightarrow>
            cluster_entry s part = Inl e \<or>
            (\<exists>s0 k t. cluster_entry s part = Inr s0 \<and> (\<forall>i<k. accepted (sweeps i s0)) \<and>
               sweeps k s0 = Inr t \<and> sweep_loop t 0 False = Inl e)) \<and>
         ((\<exists>s0. cluster_entry s part = Inr s0 \<and> (\<forall>k. accepted (sweeps k s0))) \<longrightarrow>
            cluster s part = None)"
proof -
  note cases = cap_passed_exit_cases[OF assms, of part]
  have exit: "\<And>r s0. cluster s part = Some r \<Longrightarrow> cluster_entry s part = Inr s0 \<Longrightarrow>
      iterations s0 = iterations s \<and>
      (\<exists>k. (\<forall>i<k. accepted (sweeps i s0)) \<and> \<not> accepted (sweeps k s0) \<and>
           (case sweeps (Suc k) s0 of
              Inl e \<Rightarrow> r = Inl e
            | Inr t \<Rightarrow> r = computeEnergies t \<and> iterations t = iterations s + Suc k \<and>
                        iterations t \<noteq> maxiter s))"
  proof -
    fix r s0 assume r: "cluster s part = Some r" and s0: "cluster_entry s part = Inr s0"
    have "case cluster_entry s part of
               Inl e \<Rightarrow> r = Inl e
             | Inr s0 \<Rightarrow>
                 iterations s0 = iterations s \<and>
                 (\<exists>k. (\<forall>i<k. accepted (sweeps i s0)) \<and> \<not> accepted (sweeps k s0) \<and>
                    (case sweeps (Suc k) s0 of
                       Inl e \<Rightarrow> r = Inl e
                     | Inr t \<Rightarrow> r = computeEnergies t \<and>
                                 iterations t = iterations s + Suc k \<and>
                                 iterations t \<noteq> maxiter s))"
      by (rule cases[THEN conjunct1, rule_format, OF r])
    then show "iterations s0 = iterations s \<and>
      (\<exists>k. (\<forall>i<k. accepted (sweeps i s0)) \<and> \<not> accepted (sweeps k s0) \<and>
           (case sweeps (Suc k) s0 of
              Inl e \<Rightarrow> r = Inl e
            | Inr t \<Rightarrow> r = computeEnergies t \<and> iterations t = iterations s + Suc k \<and>
                        iterations t \<noteq> maxiter s))"
      unfolding s0 by simp
  qed
  have entry_err: "\<And>r e. cluster s part = Some r \<Longrightarrow> cluster_entry s part = Inl e \<Longrightarrow> r = Inl e"
    unfolding cluster_unfold by simp
  have ret: "\<forall>s'. cluster s part = Some (Inr s') \<longrightarrow>
            (\<exists>s0 k t t'. cluster_entry s part = Inr s0 \<and> iterations s0 = iterations s \<and>
               (\<forall>i<k. accepted (sweeps i s0)) \<and> sweeps k s0 = Inr t \<and>
               sweep_loop t 0 False = Inr (t', False) \<and>
               computeEnergies (t'\<lparr>iterations := iterations t' + 1\<rparr>) = Inr s' \<and>
               iterations s' = iterations s + Suc k \<and> iterations s' \<noteq> maxiter s)"
  proof (intro allI impI)
    fix s' assume r: "cluster s part = Some (Inr s')"
    obtain s0 where s0: "cluster_entry s part = Inr s0"
    proof (cases "cluster_entry s part")
      case (Inl e)
      from entry_err[OF r Inl] have False by simp
      then show ?thesis ..
    next
      case (Inr s0)
      then show ?thesis by (rule that)
    qed
    from exit[OF r s0] obtain k where it: "iterations s0 = iterations s"
      and acc: "\<forall>i<k. accepted (sweeps i s0)" and nacc: "\<not> accepted (sweeps k s0)"
      and fin: "case sweeps (Suc k) s0 of
              Inl e \<Rightarrow> Inr s' = Inl e
            | Inr t \<Rightarrow> Inr s' = computeEnergies t \<and> iterations t = iterations s + Suc k \<and>
                        iterations t \<noteq> maxiter s"
      by blast
    from fin obtain t2 where t2: "sweeps (Suc k) s0 = Inr t2"
      and ce: "computeEnergies t2 = Inr s'" and it2: "iterations t2 = iterations s + Suc k"
      "iterations t2 \<noteq> maxiter s"
      by (cases "sweeps (Suc k) s0") auto
    from t2 obtain t where t: "sweeps k s0 = Inr t"
      unfolding sweeps_Suc_right by (cases "sweeps k s0") auto
    from t2 t obtain t' tr where sw: "sweep_loop t 0 False = Inr (t', tr)"
      and t2': "t2 = t'\<lparr>iterations := iterations t' + 1\<rparr>"
      unfolding sweeps_Suc_right by (cases "sweep_loop t 0 False") auto
    from nacc t sw have "\<not> tr" by (simp add: accepted_def)
    with sw have sw': "sweep_loop t 0 False = Inr (t', False)" by simp
    from computeEnergies_frame[OF ce] it2
    have its: "iterations s' = iterations s + Suc k" "iterations s' \<noteq> maxiter s" by simp_all
    have "cluster_entry s part = Inr s0 \<and> iterations s0 = iterations s \<and>
               (\<forall>i<k. accepted (sweeps i s0)) \<and> sweeps k s0 = Inr t \<and>
               sweep_loop t 0 False = Inr (t', False) \<and>
               computeEnergies (t'\<lparr>iterations := iterations t' + 1\<rparr>) = Inr s' \<and>
               iterations s' = iterations s + Suc k \<and> iterations s' \<noteq> maxiter s"
      by (intro conjI s0 it acc t sw' ce[unfolded t2'] its)
    then show "\<exists>s0 k t t'. cluster_entry s part = Inr s0 \<and> iterations s0 = iterations s \<and>
               (\<forall>i<k. accepted (sweeps i s0)) \<and> sweeps k s0 = Inr t \<and>
               sweep_loop t 0 False = Inr (t', False) \<and>
               computeEnergies (t'\<lparr>iterations := iterations t' + 1\<rparr>) = Inr s' \<and>
               iterations s' = iterations s + Suc k \<and> iterations s' \<noteq> maxiter s"
      by blast
  qed
  have err: "\<forall>e. cluster s part = Some (Inl e) \<longrightarrow>
            cluster_entry s part = Inl e \<or>
            (\<exists>s0 k t. cluster_entry s part = Inr s0 \<and> (\<forall>i<k. accepted (sweeps i s0)) \<and>
               sweeps k s0 = Inr t \<and> sweep_loop t 0 False = Inl e)"
  proof (intro allI impI)
    fix e assume r: "cluster s part = Some (Inl e)"
    show "cluster_entry s part = Inl e \<or>
            (\<exists>s0 k t. cluster_entry s part = Inr s0 \<and> (\<forall>i<k. accepted (sweeps i s0)) \<and>
               sweeps k s0 = Inr t \<and> sweep_loop t 0 False = Inl e)"
    proof (cases "cluster_entry s part")
      case (Inl e')
      from entry_err[OF r Inl] Inl show ?thesis by simp
    next
      case (Inr s0)
      from exit[OF r Inr]
      have "\<exists>k. (\<forall>i<k. accepted (sweeps i s0)) \<and> \<not> accepted (sweeps k s0) \<and>
           (case sweeps (Suc k) s0 of
              Inl e' \<Rightarrow> (Inl e :: error + wkm) = Inl e'
            | Inr t \<Rightarrow> Inl e = computeEnergies t \<and> iterations t = iterations s + Suc k \<and>
                        iterations t \<noteq> maxiter s)"
        by (rule conjunct2)
      then obtain k where kf: "(\<forall>i<k. accepted (sweeps i s0)) \<and> \<not> accepted (sweeps k s0) \<and>
           (case sweeps (Suc k) s0 of
              Inl e' \<Rightarrow> (Inl e :: error + wkm) = Inl e'
            | Inr t \<Rightarrow> Inl e = computeEnergies t \<and> iterations t = iterations s + Suc k \<and>
                        iterations t \<noteq> maxiter s)" ..
      from kf have acc: "\<forall>i<k. accepted (sweeps i s0)" by (rule conjunct1)
      from kf have nacc: "\<not> accepted (sweeps k s0)" by (rule conjunct2[THEN conjunct1])
      from kf have fin: "case sweeps (Suc k) s0 of
              Inl e' \<Rightarrow> (Inl e :: error + wkm) = Inl e'
            | Inr t \<Rightarrow> Inl e = computeEnergies t \<and> iterations t = iterations s + Suc k \<and>
                        iterations t \<noteq> maxiter s"
        by (rule conjunct2[THEN conjunct2])
      have ok0: "clusters_ok s0" using cluster_entry_frame[OF Inr] by simp
      have raised: "sweeps (Suc k) s0 = Inl e"
      proof (cases "sweeps (Suc k) s0")
        case (Inl e')
        with fin show ?thesis by simp
      next
        case t2: (Inr t2)
        from computeEnergies_total[OF sweeps_ok[OF t2 ok0]] obtain s'' where
          "computeEnergies t2 = Inr s''" ..
        with fin t2 show ?thesis by simp
      qed
      have kk: "\<exists>t. sweeps k s0 = Inr t"
      proof (cases k)
        case 0
        then show ?thesis by simp
      next
        case (Suc k')
        with acc have "accepted (sweeps k' s0)" by simp
        from accepted_next[OF this] Suc show ?thesis by simp
      qed
      then obtain t where t: "sweeps k s0 = Inr t" ..
      from raised t have "sweep_loop t 0 False = Inl e"
        unfolding sweeps_Suc_right by (cases "sweep_loop t 0 False") auto
      with Inr acc t have "cluster_entry s part = Inr s0 \<and> (\<forall>i<k. accepted (sweeps i s0)) \<and>
               sweeps k s0 = Inr t \<and> sweep_loop t 0 False = Inl e" by simp
      then have "\<exists>s0 k t. cluster_entry s part = Inr s0 \<and> (\<forall>i<k. accepted (sweeps i s0)) \<and>
               sweeps k s0 = Inr t \<and> sweep_loop t 0 False = Inl e" by blast
      then show ?thesis ..
    qed
  qed
  have div: "(\<exists>s0. cluster_entry s part = Inr s0 \<and> (\<forall>k. accepted (sweeps k s0))) \<longrightarrow>
            cluster s part = None" by (rule cases[THEN conjunct2])
  show ?thesis by (rule conjI[OF ret conjI[OF err div]])
qed

theorem cap_passed_returns_only_after_idle_sweep_witness:
  "initialized ((init (projr (WKM [[0], [0], [0], [2], [5]] 2 0)) None)\<lparr>iterations := 100\<rparr>) \<and>
   maxiter ((init (projr (WKM [[0], [0], [0], [2], [5]] 2 0)) None)\<lparr>iterations := 100\<rparr>)
     \<le> iterations ((init (projr (WKM [[0], [0], [0], [2], [5]] 2 0)) None)\<lparr>iterations := 100\<rparr>) \<and>
   2 \<le> numclusters ((init (projr (WKM [[0], [0], [0], [2], [5]] 2 0)) None)\<lparr>iterations := 100\<rparr>) \<and>
   (\<exists>s'. cluster ((init (projr (WKM [[0], [0], [0], [2], [5]] 2 0)) None)\<lparr>iterations := 100\<rparr>) None
            = Some (Inr s') \<and> iterations s' = 103) \<and>
   (\<exists>s0 k t t'.
       cluster_entry ((init (projr (WKM [[0], [0], [0], [2], [5]] 2 0)) None)\<lparr>iterations := 100\<rparr>) None
            = Inr s0 \<and> sweeps k s0 = Inr t \<and> sweep_loop t 0 False = Inr (t', False))"
proof -
  let ?S = "(init (projr (WKM [[0], [0], [0], [2], [5]] 2 0)) None)\<lparr>iterations := 100\<rparr>"
  have h1: "initialized ?S" by (simp add: eval_defs)
  have h2: "maxiter ?S \<le> iterations ?S" by (simp add: eval_defs)
  have h3: "2 \<le> numclusters ?S" by (simp add: eval_defs)
  have ev: "\<exists>s'. cluster ?S None = Some (Inr s') \<and> iterations s' = 103"
    by (simp add: eval_defs)
  then obtain s' where s': "cluster ?S None = Some (Inr s')" by blast
  note ret = cap_passed_returns_only_after_idle_sweep[OF h1 h2 h3, of None]
  from ret[THEN conjunct1, rule_format, OF s']
  obtain s0 k t t' where "cluster_entry ?S None = Inr s0" "sweeps k s0 = Inr t"
    "sweep_loop t 0 False = Inr (t', False)"
    by (elim exE conjE)
  then have "\<exists>s0 k t t'. cluster_entry ?S None = Inr s0 \<and> sweeps k s0 = Inr t \<and>
      sweep_loop t 0 False = Inr (t', False)" by blast
  with h1 h2 h3 ev show ?thesis by (intro conjI)
qed

text \<open>
  Claim C10 as stated fails: it says that the call terminates only if some sweep accepts
  zero moves. With the counter at 100 on entry, the guard of \<^verbatim>\<open>setPartition\<close> ends the call
  with EmptyCluster for a supplied partition with an empty segment, before any sweep.
\<close>

theorem cap_passed_raises_counterexample:
  "initialized ((init (projr (WKM [[0], [0], [0], [2], [5]] 2 0)) None)\<lparr>iterations := 100\<rparr>) \<and>
   iterations ((init (projr (WKM [[0], [0], [0], [2], [5]] 2 0)) None)\<lparr>iterations := 100\<rparr>) = 100 \<and>
   maxiter ((init (projr (WKM [[0], [0], [0], [2], [5]] 2 0)) None)\<lparr>iterations := 100\<rparr>) = 100 \<and>
   numclusters ((init (projr (WKM [[0], [0], [0], [2], [5]] 2 0)) None)\<lparr>iterations := 100\<rparr>) = 2 \<and>
   cluster ((init (projr (WKM [[0], [0], [0], [2], [5]] 2 0)) None)\<lparr>iterations := 100\<rparr>)
     (Some [[[0]], []]) = Some (Inl (EmptyCluster 1))"
  by (simp add: eval_defs)

section \<open>The size of the source segment inside a scan\<close>

text \<open>
  Both scans read \<^verbatim>\<open>points\<close> and \<^verbatim>\<open>n = points.length\<close> once, before their \<^verbatim>\<open>for\<close> loop.
  After an accepted move the segment has one member less, but the next candidate of the
  same scan is still tested, and the centroid of the segment still updated, with the
  \<open>n\<close> of the start of the scan; \<open>m\<close>, the size of the destination, is read again for
  every candidate. The four evaluations below run the code on inputs where this shows.
\<close>

text \<open>
  The update of \<^verbatim>\<open>incrementalMeans\<close> is the exact mean of the two new memberships when
  \<open>n\<close> and \<open>m\<close> are the sizes of the source and of the destination before the move and the
  stored centroids are the means: for a left move (the first member of the source goes to
  the end of the destination) and for a right move (the last member goes to the front).
\<close>

lemma mean_with_one_more_real:
  fixes S v a :: real
  assumes "0 < a"
  shows "(S + v) / (a + 1) = S / a + (v - S / a) / (a + 1)"
proof -
  have a1: "a + 1 \<noteq> 0" and a0: "a \<noteq> 0" using assms by auto
  have "(S / a + (v - S / a) / (a + 1)) * (a + 1) = S / a * (a + 1) + (v - S / a)"
    using a1 by (simp add: distrib_right)
  also have "S / a * (a + 1) = S + S / a" using a0 by (simp add: distrib_left)
  finally have "(S / a + (v - S / a) / (a + 1)) * (a + 1) = S + v" by simp
  with a1 have "S / a + (v - S / a) / (a + 1) = (S + v) / (a + 1)"
    by (metis nonzero_eq_divide_eq)
  then show ?thesis by simp
qed

lemma mean_with_one_more:
  fixes S v :: real and m :: nat
  assumes "0 < m"
  shows "(S + v) / (real m + 1) = S / real m + (v - S / real m) / (real m + 1)"
  using assms by (intro mean_with_one_more_real) simp

lemma mean_with_one_less:
  fixes S v :: real and n :: nat
  assumes "2 \<le> n"
  shows "S / (real n - 1) = (S + v) / real n - (v - (S + v) / real n) / (real n - 1)"
proof -
  from assms have "real n - 1 \<noteq> 0" "real n \<noteq> 0" by auto
  then show ?thesis by (simp add: field_simps)
qed

lemma clustercenter_nth:
  assumes "clustercenter ps = Some c" and "\<forall>p\<in>set ps. length p = D" and "d < D"
  shows "c ! d = sum_list (map (\<lambda>q. q ! d) ps) / real (length ps)"
  using assms by (cases ps) (auto simp: clustercenter_def)

lemma clustercenter_eq:
  assumes "ps \<noteq> []" and "\<forall>p\<in>set ps. length p = D"
  shows "clustercenter ps =
         Some (map (\<lambda>d. sum_list (map (\<lambda>q. q ! d) ps) / real (length ps)) [0..<D])"
  using assms by (cases ps) (auto simp: clustercenter_def)

lemma incrementalMeans_exact_left:
  assumes jb: "j < length (centroids s)" "b < length (centroids s)" "b \<noteq> j"
    and src: "clustercenter (x # rest) = Some (centroids s ! j)" and rest: "rest \<noteq> []"
    and dst: "clustercenter dst = Some (centroids s ! b)"
    and dims: "\<forall>p\<in>set (x # rest @ dst). length p = dimensions s"
  shows "clustercenter rest =
           Some (centroids (incrementalMeans s x j b (length (x # rest)) (length dst)) ! j) \<and>
         clustercenter (dst @ [x]) =
           Some (centroids (incrementalMeans s x j b (length (x # rest)) (length dst)) ! b)"
proof -
  let ?D = "dimensions s"
  from dst have dne: "dst \<noteq> []" by (auto simp: clustercenter_def)
  have cj: "\<And>d. d < ?D \<Longrightarrow>
      centroids s ! j ! d = sum_list (map (\<lambda>q. q ! d) (x # rest)) / real (length (x # rest))"
    using clustercenter_nth[OF src, of ?D] dims by auto
  have cb: "\<And>d. d < ?D \<Longrightarrow>
      centroids s ! b ! d = sum_list (map (\<lambda>q. q ! d) dst) / real (length dst)"
    using clustercenter_nth[OF dst, of ?D] dims by auto
  have n2: "2 \<le> length (x # rest)" using rest by (cases rest) auto
  have "clustercenter rest =
        Some (map (\<lambda>d. sum_list (map (\<lambda>q. q ! d) rest) / real (length rest)) [0..<?D])"
    using rest dims by (intro clustercenter_eq) auto
  also have "map (\<lambda>d. sum_list (map (\<lambda>q. q ! d) rest) / real (length rest)) [0..<?D] =
        map (\<lambda>d. centroids s ! j ! d - (x ! d - centroids s ! j ! d) / (real (length (x # rest)) - 1))
          [0..<?D]"
  proof (rule map_cong[OF refl])
    fix d assume "d \<in> set [0..<?D]"
    then have d: "d < ?D" by simp
    have "sum_list (map (\<lambda>q. q ! d) rest) / (real (length (x # rest)) - 1) =
          (sum_list (map (\<lambda>q. q ! d) rest) + x ! d) / real (length (x # rest))
          - (x ! d - (sum_list (map (\<lambda>q. q ! d) rest) + x ! d) / real (length (x # rest)))
            / (real (length (x # rest)) - 1)"
      by (rule mean_with_one_less[OF n2])
    then show "sum_list (map (\<lambda>q. q ! d) rest) / real (length rest) =
          centroids s ! j ! d - (x ! d - centroids s ! j ! d) / (real (length (x # rest)) - 1)"
      unfolding cj[OF d] by (simp add: add.commute)
  qed
  finally have 1: "clustercenter rest =
        Some (map (\<lambda>d. centroids s ! j ! d - (x ! d - centroids s ! j ! d) / (real (length (x # rest)) - 1))
          [0..<?D])" .
  have "clustercenter (dst @ [x]) =
        Some (map (\<lambda>d. sum_list (map (\<lambda>q. q ! d) (dst @ [x])) / real (length (dst @ [x]))) [0..<?D])"
    using dims by (intro clustercenter_eq) auto
  also have "map (\<lambda>d. sum_list (map (\<lambda>q. q ! d) (dst @ [x])) / real (length (dst @ [x]))) [0..<?D] =
        map (\<lambda>d. centroids s ! b ! d + (x ! d - centroids s ! b ! d) / (real (length dst) + 1))
          [0..<?D]"
  proof (rule map_cong[OF refl])
    fix d assume "d \<in> set [0..<?D]"
    then have d: "d < ?D" by simp
    have "0 < length dst" using dne by simp
    from mean_with_one_more[OF this, of "sum_list (map (\<lambda>q. q ! d) dst)" "x ! d"]
    show "sum_list (map (\<lambda>q. q ! d) (dst @ [x])) / real (length (dst @ [x])) =
          centroids s ! b ! d + (x ! d - centroids s ! b ! d) / (real (length dst) + 1)"
      unfolding cb[OF d] by (simp add: add.commute)
  qed
  finally have 2: "clustercenter (dst @ [x]) =
        Some (map (\<lambda>d. centroids s ! b ! d + (x ! d - centroids s ! b ! d) / (real (length dst) + 1))
          [0..<?D])" .
  from 1 2 jb show ?thesis by (simp add: incrementalMeans_def Let_def)
qed

lemma incrementalMeans_exact_right:
  assumes jb: "j < length (centroids s)" "b < length (centroids s)" "b \<noteq> j"
    and src: "clustercenter (rest @ [x]) = Some (centroids s ! j)" and rest: "rest \<noteq> []"
    and dst: "clustercenter dst = Some (centroids s ! b)"
    and dims: "\<forall>p\<in>set (rest @ [x] @ dst). length p = dimensions s"
  shows "clustercenter rest =
           Some (centroids (incrementalMeans s x j b (length (rest @ [x])) (length dst)) ! j) \<and>
         clustercenter (x # dst) =
           Some (centroids (incrementalMeans s x j b (length (rest @ [x])) (length dst)) ! b)"
proof -
  let ?D = "dimensions s"
  from dst have dne: "dst \<noteq> []" by (auto simp: clustercenter_def)
  have cj: "\<And>d. d < ?D \<Longrightarrow>
      centroids s ! j ! d = sum_list (map (\<lambda>q. q ! d) (rest @ [x])) / real (length (rest @ [x]))"
    using clustercenter_nth[OF src, of ?D] dims by auto
  have cb: "\<And>d. d < ?D \<Longrightarrow>
      centroids s ! b ! d = sum_list (map (\<lambda>q. q ! d) dst) / real (length dst)"
    using clustercenter_nth[OF dst, of ?D] dims by auto
  have n2: "2 \<le> length (rest @ [x])" using rest by (cases rest) auto
  have "clustercenter rest =
        Some (map (\<lambda>d. sum_list (map (\<lambda>q. q ! d) rest) / real (length rest)) [0..<?D])"
    using rest dims by (intro clustercenter_eq) auto
  also have "map (\<lambda>d. sum_list (map (\<lambda>q. q ! d) rest) / real (length rest)) [0..<?D] =
        map (\<lambda>d. centroids s ! j ! d - (x ! d - centroids s ! j ! d) / (real (length (rest @ [x])) - 1))
          [0..<?D]"
  proof (rule map_cong[OF refl])
    fix d assume "d \<in> set [0..<?D]"
    then have d: "d < ?D" by simp
    have "sum_list (map (\<lambda>q. q ! d) rest) / (real (length (rest @ [x])) - 1) =
          (sum_list (map (\<lambda>q. q ! d) rest) + x ! d) / real (length (rest @ [x]))
          - (x ! d - (sum_list (map (\<lambda>q. q ! d) rest) + x ! d) / real (length (rest @ [x])))
            / (real (length (rest @ [x])) - 1)"
      by (rule mean_with_one_less[OF n2])
    then show "sum_list (map (\<lambda>q. q ! d) rest) / real (length rest) =
          centroids s ! j ! d - (x ! d - centroids s ! j ! d) / (real (length (rest @ [x])) - 1)"
      unfolding cj[OF d] by (simp add: add.commute)
  qed
  finally have 1: "clustercenter rest =
        Some (map (\<lambda>d. centroids s ! j ! d - (x ! d - centroids s ! j ! d) / (real (length (rest @ [x])) - 1))
          [0..<?D])" .
  have "clustercenter (x # dst) =
        Some (map (\<lambda>d. sum_list (map (\<lambda>q. q ! d) (x # dst)) / real (length (x # dst))) [0..<?D])"
    using dims by (intro clustercenter_eq) auto
  also have "map (\<lambda>d. sum_list (map (\<lambda>q. q ! d) (x # dst)) / real (length (x # dst))) [0..<?D] =
        map (\<lambda>d. centroids s ! b ! d + (x ! d - centroids s ! b ! d) / (real (length dst) + 1))
          [0..<?D]"
  proof (rule map_cong[OF refl])
    fix d assume "d \<in> set [0..<?D]"
    then have d: "d < ?D" by simp
    have "0 < length dst" using dne by simp
    from mean_with_one_more[OF this, of "sum_list (map (\<lambda>q. q ! d) dst)" "x ! d"]
    show "sum_list (map (\<lambda>q. q ! d) (x # dst)) / real (length (x # dst)) =
          centroids s ! b ! d + (x ! d - centroids s ! b ! d) / (real (length dst) + 1)"
      unfolding cb[OF d] by (simp add: add.commute)
  qed
  finally have 2: "clustercenter (x # dst) =
        Some (map (\<lambda>d. centroids s ! b ! d + (x ! d - centroids s ! b ! d) / (real (length dst) + 1))
          [0..<?D])" .
  from 1 2 jb show ?thesis by (simp add: incrementalMeans_def Let_def)
qed

text \<open>
  Claim C2. Samples 0, 0, 0, 3, 7 in two segments: the boundaries start as \<open>[0, 2]\<close>. In
  the first sweep the left scan of segment 1 moves the sample 0 to segment 0; the next
  candidate, 3, is tested when segment 1 holds two members. With the current size 2 the
  test of the claim gives \<open>J1 - J2 = 27/4 - 8 < 0\<close>, and one member would remain, so the
  claim accepts; the code computes \<open>J2\<close> with the size 3 of the start of the scan, gets
  \<open>27/4 - 6 \<ge> 0\<close> and rejects: three candidates evaluated, one transfer.
\<close>

theorem stale_size_rejects_improving_move:
  "\<exists>s0 s1. cluster_entry (projr (WKM [[0], [0], [0], [3], [7]] 2 0)) None = Inr s0 \<and>
     sweep_loop s0 0 False = Inr (s1, True) \<and>
     cost s1 = 3 \<and> numtransfers s1 = 1 \<and> boundaries s1 = [0, 3] \<and>
     clusters s1 = [[[0], [0], [0]], [[3], [7]]] \<and> centroids s1 = [[0], [5]] \<and>
     J1 s1 [3] 0 (length (clusters s1 ! 0)) - J2 s1 [3] 1 (length (clusters s1 ! 1)) = - 5 / 4 \<and>
     1 < length (clusters s1 ! 1) \<and>
     J1 s1 [3] 0 (length (clusters s1 ! 0)) - J2 s1 [3] 1 3 = 3 / 4"
  by (simp add: eval_defs cluster_entry_def)

text \<open>
  Claim C3. Samples 0, 0, 0, 1, 9 in two segments: the left scan of segment 1 accepts two
  moves in a row (0, then 1). After the second one segment 1 is \<open>[9]\<close>, whose mean is 9,
  and the stored centroid is 7: the update divided by \<open>n - 1\<close> with the \<open>n\<close> of the start of
  the scan. The centroid of the destination is the mean, 1/4.
\<close>

theorem second_move_leaves_wrong_centroid:
  "\<exists>s0 s1. cluster_entry (projr (WKM [[0], [0], [0], [1], [9]] 2 0)) None = Inr s0 \<and>
     sweep_loop s0 0 False = Inr (s1, True) \<and>
     numtransfers s1 = 2 \<and> boundaries s1 = [0, 4] \<and>
     clusters s1 = [[[0], [0], [0], [1]], [[9]]] \<and>
     centroids s1 = [[1 / 4], [7]] \<and>
     clustercenter (clusters s1 ! 0) = Some [1 / 4] \<and>
     clustercenter (clusters s1 ! 1) = Some [9]"
  by (simp add: eval_defs cluster_entry_def)

text \<open>
  Claim C1. Samples 0, 0, 5, 0, 4, 0, 6 in three segments: the initial partition
  \<open>[0, 2, 5]\<close> has total energy 32; the fit ends after three sweeps at \<open>[0, 3, 4]\<close>, and
  the energy recomputed from scratch is 106/3, which is more. The right scan of segment 1
  accepts two moves in a row, and the sweeps that follow decide with the centroid this
  leaves behind.
\<close>

theorem fit_increases_energy:
  "\<exists>s0 s'. cluster_entry (projr (WKM [[0], [0], [5], [0], [4], [0], [6]] 3 0)) None = Inr s0 \<and>
     boundaries s0 = [0, 2, 5] \<and> totalenergy s0 = 32 \<and>
     cluster (projr (WKM [[0], [0], [5], [0], [4], [0], [6]] 3 0)) None = Some (Inr s') \<and>
     boundaries s' = [0, 3, 4] \<and> iterations s' = 3 \<and> totalenergy s' = 106 / 3 \<and>
     totalenergy s0 < totalenergy s'"
  by (simp add: eval_defs cluster_entry_def)

text \<open>
  Claim C9. Samples 0, 0, 0, 2, 5 in two segments: the first fit ends after three sweeps
  (the third accepts no move, far below the cap) with the boundaries \<open>[0, 3]\<close> and three
  transfers. Its last sweep decided with the centroid 25/8 of segment 1 that the
  incremental updates had left; the fit then recomputes the centroids, to 7/2. The second
  fit on the same instance therefore accepts a move: four transfers, boundaries
  \<open>[0, 4]\<close>.
\<close>

theorem refit_after_convergence_moves:
  "\<exists>s0 t t' s1 s2.
     cluster_entry (projr (WKM [[0], [0], [0], [2], [5]] 2 0)) None = Inr s0 \<and>
     sweeps 2 s0 = Inr t \<and> sweep_loop t 0 False = Inr (t', False) \<and>
     centroids t' = [[0], [25 / 8]] \<and>
     cluster (projr (WKM [[0], [0], [0], [2], [5]] 2 0)) None = Some (Inr s1) \<and>
     iterations s1 = 3 \<and> maxiter s1 = 100 \<and> numtransfers s1 = 3 \<and> boundaries s1 = [0, 3] \<and>
     centroids s1 = [[0], [7 / 2]] \<and>
     cluster s1 None = Some (Inr s2) \<and>
     numtransfers s2 = 4 \<and> boundaries s2 = [0, 4]"
  by (simp add: eval_defs cluster_entry_def numeral_2_eq_2)

end
